theory Spec2Isabelle
  imports Main "HOL-Library.Word"
begin

unbundle bit_operations_syntax

section \<open>Errors\<close>

text \<open>
  The source signals failure by throwing \<^verbatim>\<open>std::runtime_error\<close>; the three messages are
  the three error kinds of the specification.  \<open>Undefined\<close> stands for what C++ leaves
  undefined and the model has to name: an array index outside its array and the use of
  a child pointer that was never written.
\<close>

datatype error = AllocationFailed | OutOfArena | ArenaUnavailable | Undefined

section \<open>The arena (class Arena)\<close>

text \<open>
  \<^verbatim>\<open>char *memory; size_t offset; size_t capacity;\<close>  The target is x86-64 (the tree uses
  AVX2 intrinsics), so \<^verbatim>\<open>size_t\<close> and addresses are 64-bit words and all arithmetic on them
  wraps.
\<close>

record Arena =
  memory :: "64 word"
  offset :: "64 word"
  capacity :: "64 word"

text \<open>
  The constructor.  Its argument \<open>m\<close> is what \<^verbatim>\<open>malloc(size)\<close> returned: \<open>None\<close> for the
  null pointer.
\<close>

definition Arena_new :: "64 word option \<Rightarrow> 64 word \<Rightarrow> error + Arena" where
  "Arena_new m sz =
     (case m of
        None \<Rightarrow> Inl AllocationFailed
      | Some p \<Rightarrow> Inr \<lparr>memory = p, offset = 0, capacity = sz\<rparr>)"

text \<open>
  \<^verbatim>\<open>allocate\<close>: the result is the thrown error or the returned pointer, paired with the
  arena afterwards.  The throw happens before any field is written.
\<close>

definition allocate :: "Arena \<Rightarrow> 64 word \<Rightarrow> (error + 64 word) \<times> Arena" where
  "allocate a bytes =
     (let aligned_bytes = (bytes + 63) AND NOT 63 in
      if offset a + aligned_bytes > capacity a
      then (Inl OutOfArena, a)
      else (Inr (memory a + offset a), a\<lparr>offset := offset a + aligned_bytes\<rparr>))"

definition get_used_memory :: "Arena \<Rightarrow> 64 word" where
  "get_used_memory a = offset a"

definition get_capacity :: "Arena \<Rightarrow> 64 word" where
  "get_capacity a = capacity a"

definition reset :: "Arena \<Rightarrow> Arena" where
  "reset a = a\<lparr>offset := 0\<rparr>"

text \<open>A sequence of \<^verbatim>\<open>allocate\<close> calls, stopped by the first one that throws.\<close>

fun allocate_all :: "Arena \<Rightarrow> 64 word list \<Rightarrow> error + Arena" where
  "allocate_all a [] = Inr a"
| "allocate_all a (b # bs) =
     (case allocate a b of
        (Inl e, _) \<Rightarrow> Inl e
      | (Inr p, a') \<Rightarrow> allocate_all a' bs)"

text \<open>
  The specification's rounding, on unbounded numbers: the least multiple of 64 that is
  not below \<open>n\<close>.
\<close>

definition round_up_64 :: "nat \<Rightarrow> nat" where
  "round_up_64 n = (n + 63) div 64 * 64"

section \<open>Nodes (struct Node)\<close>

text \<open>
  \<^verbatim>\<open>is_leaf\<close> and the union of \<^verbatim>\<open>values\<close> and \<^verbatim>\<open>children\<close> form a tagged union: a leaf
  carries \<^verbatim>\<open>num_keys\<close>, \<^verbatim>\<open>keys[M]\<close> and \<^verbatim>\<open>values[M]\<close>, an internal node \<^verbatim>\<open>num_keys\<close>,
  \<^verbatim>\<open>keys[M]\<close> and \<^verbatim>\<open>children[M + 1]\<close>.  The lists are the whole arrays, the slots at and
  after \<^verbatim>\<open>num_keys\<close> included: the constructor leaves them uninitialised, a split leaves
  the moved entries behind in them, and the SIMD lookup loads them.

  A child pointer is modelled by the subtree it points to.  Every node of a tree is
  pointed to by one live slot only (slot \<open>i \<le> num_keys\<close> of its parent, or the root
  pointer), so that updating a node in place is rebuilding the path to it.  \<open>Dangling\<close>
  is a child slot that was never written.
\<close>

datatype ('k, 'v) Node =
    Leaf nat "'k list" "'v list"
  | Internal nat "'k list" "('k, 'v) Node list"
  | Dangling

text \<open>
  What the tree code takes from its surroundings: \<^verbatim>\<open>sizeof(Node)\<close>, and the contents the
  arena's buffer had when it was handed out by \<^verbatim>\<open>malloc\<close> (never initialised), read as
  the key and value slots of a node placed at an address.
\<close>

record ('k, 'v) Layout =
  node_bytes :: "64 word"
  raw_keys :: "64 word \<Rightarrow> nat \<Rightarrow> 'k"
  raw_vals :: "64 word \<Rightarrow> nat \<Rightarrow> 'v"

text \<open>
  \<^verbatim>\<open>Node::operator new\<close>.  The global \<^verbatim>\<open>Arena *global_arena\<close> is an \<open>Arena option\<close>, \<open>None\<close>
  for the null pointer; it is passed in and handed back.
\<close>

definition operator_new ::
  "('k, 'v) Layout \<Rightarrow> Arena option \<Rightarrow> error + (64 word \<times> Arena option)" where
  "operator_new L g =
     (case g of
        None \<Rightarrow> Inl ArenaUnavailable
      | Some a \<Rightarrow>
          (case allocate a (node_bytes L) of
             (Inl e, _) \<Rightarrow> Inl e
           | (Inr p, a') \<Rightarrow> Inr (p, Some a')))"

text \<open>The arrays of a node constructed at address \<open>p\<close>: \<^verbatim>\<open>Node(bool leaf)\<close> writes none.\<close>

definition uninit_keys :: "nat \<Rightarrow> ('k, 'v) Layout \<Rightarrow> 64 word \<Rightarrow> 'k list" where
  "uninit_keys M L p = map (raw_keys L p) [0..<M]"

definition uninit_vals :: "nat \<Rightarrow> ('k, 'v) Layout \<Rightarrow> 64 word \<Rightarrow> 'v list" where
  "uninit_vals M L p = map (raw_vals L p) [0..<M]"

definition uninit_children :: "nat \<Rightarrow> ('k, 'v) Node list" where
  "uninit_children M = replicate (M + 1) Dangling"

text \<open>A value stored into \<^verbatim>\<open>uint16_t num_keys\<close>.\<close>

definition u16 :: "int \<Rightarrow> nat" where
  "u16 z = nat (z mod 65536)"

section \<open>Insertion\<close>

text \<open>\<^verbatim>\<open>while (i < node->num_keys && key > node->keys[i]) i++;\<close> (insert_recursive, step 1)\<close>

function lower_index :: "nat \<Rightarrow> ('k::linorder) list \<Rightarrow> 'k \<Rightarrow> nat \<Rightarrow> nat" where
  "lower_index n ks key i =
     (if i < n \<and> key > ks ! i then lower_index n ks key (i + 1) else i)"
  by pat_completeness auto
termination
  by (relation "measure (\<lambda>(n, ks, key, i). n - i)") auto

text \<open>\<^verbatim>\<open>for (int k = from; k > i; k--) a[k] = a[k-1];\<close>\<close>

function shift_right :: "'a list \<Rightarrow> nat \<Rightarrow> nat \<Rightarrow> 'a list" where
  "shift_right xs k i =
     (if k > i then shift_right (xs[k := xs ! (k - 1)]) (k - 1) i else xs)"
  by pat_completeness auto
termination
  by (relation "measure (\<lambda>(xs, k, i). k)") auto

text \<open>\<^verbatim>\<open>for (int i = 0; i < cnt; i++) dst[i] = src[off + i];\<close>\<close>

function copy_from :: "'a list \<Rightarrow> 'a list \<Rightarrow> nat \<Rightarrow> int \<Rightarrow> nat \<Rightarrow> 'a list" where
  "copy_from dst src off cnt i =
     (if int i < cnt then copy_from (dst[i := src ! (off + i)]) src off cnt (i + 1) else dst)"
  by pat_completeness auto
termination
  by (relation "measure (\<lambda>(dst, src, off, cnt, i). nat cnt - i)") auto

text \<open>
  \<^verbatim>\<open>split_leaf\<close> and \<^verbatim>\<open>split_internal\<close>, applied to the node with fields \<open>n\<close>, \<open>ks\<close>, \<open>vs\<close>
  (or \<open>cs\<close>).  They return the old node, the new node and the median, or the error
  thrown by \<^verbatim>\<open>new Node\<close>.
\<close>

definition split_leaf ::
  "nat \<Rightarrow> ('k, 'v) Layout \<Rightarrow> Arena option \<Rightarrow> nat \<Rightarrow> 'k list \<Rightarrow> 'v list \<Rightarrow>
   error + (('k, 'v) Node \<times> ('k, 'v) Node \<times> 'k \<times> Arena option)" where
  "split_leaf M L g n ks vs =
     (let mid = M div 2 in
      case operator_new L g of
        Inl e \<Rightarrow> Inl e
      | Inr (p, g') \<Rightarrow>
          (let num_moving = int n - int mid;
               nks = copy_from (uninit_keys M L p) ks mid num_moving 0;
               nvs = copy_from (uninit_vals M L p) vs mid num_moving 0
           in Inr (Leaf (u16 (int mid)) ks vs, Leaf (u16 num_moving) nks nvs, nks ! 0, g')))"

definition split_internal ::
  "nat \<Rightarrow> ('k, 'v) Layout \<Rightarrow> Arena option \<Rightarrow> nat \<Rightarrow> 'k list \<Rightarrow> ('k, 'v) Node list \<Rightarrow>
   error + (('k, 'v) Node \<times> ('k, 'v) Node \<times> 'k \<times> Arena option)" where
  "split_internal M L g n ks cs =
     (let mid = M div 2 in
      case operator_new L g of
        Inl e \<Rightarrow> Inl e
      | Inr (p, g') \<Rightarrow>
          (let median = ks ! mid;
               num_keys_moving = int n - (int mid + 1);
               nks = copy_from (uninit_keys M L p) ks (mid + 1) num_keys_moving 0;
               num_children_moving = num_keys_moving + 1;
               ncs = copy_from (uninit_children M) cs (mid + 1) num_children_moving 0
           in Inr (Internal (u16 (int mid)) ks cs, Internal (u16 num_keys_moving) nks ncs,
                   median, g')))"

text \<open>
  \<^verbatim>\<open>insert_recursive\<close>, step 2 (the node is a leaf).  The result is the node afterwards,
  the new sibling with its median if the node was split (\<open>None\<close> for
  \<^verbatim>\<open>new_sibling == nullptr\<close>), and the arena.  The shift loop and the two stores write
  slot \<open>n\<close> of \<^verbatim>\<open>keys[M]\<close> and \<^verbatim>\<open>values[M]\<close> in every case, which is outside the arrays
  when \<open>M \<le> n\<close>.
\<close>

definition insert_leaf ::
  "nat \<Rightarrow> ('k::linorder, 'v) Layout \<Rightarrow> Arena option \<Rightarrow> nat \<Rightarrow> 'k list \<Rightarrow> 'v list \<Rightarrow>
   'k \<Rightarrow> 'v \<Rightarrow> error + (('k, 'v) Node \<times> (('k, 'v) Node \<times> 'k) option \<times> Arena option)" where
  "insert_leaf M L g n ks vs key val =
     (let i = lower_index n ks key 0 in
      if i > 0 \<and> ks ! (i - 1) = key then Inr (Leaf n ks (vs[i - 1 := val]), None, g)
      else if M \<le> n then Inl Undefined
      else
        let ks' = (shift_right ks n i)[i := key];
            vs' = (shift_right vs n i)[i := val];
            n' = u16 (int n + 1)
        in if n' \<ge> M
           then (case split_leaf M L g n' ks' vs' of
                   Inl e \<Rightarrow> Inl e
                 | Inr (node, new_sibling, median, g') \<Rightarrow>
                     Inr (node, Some (new_sibling, median), g'))
           else Inr (Leaf n' ks' vs', None, g))"

text \<open>
  \<^verbatim>\<open>insert_recursive\<close>, step 3 after the recursive call reported a split of child \<open>i\<close>.
  Slot \<open>n\<close> of \<^verbatim>\<open>keys[M]\<close> and slot \<open>n + 1\<close> of \<^verbatim>\<open>children[M + 1]\<close> are written in every case.
\<close>

definition insert_internal ::
  "nat \<Rightarrow> ('k, 'v) Layout \<Rightarrow> Arena option \<Rightarrow> nat \<Rightarrow> 'k list \<Rightarrow> ('k, 'v) Node list \<Rightarrow>
   nat \<Rightarrow> ('k, 'v) Node \<Rightarrow> 'k \<Rightarrow>
   error + (('k, 'v) Node \<times> (('k, 'v) Node \<times> 'k) option \<times> Arena option)" where
  "insert_internal M L g n ks cs i child_sibling child_median =
     (if M \<le> n then Inl Undefined
      else
        let ks' = (shift_right ks n i)[i := child_median];
            cs' = (shift_right cs (n + 1) (i + 1))[i + 1 := child_sibling];
            n' = u16 (int n + 1)
        in if n' \<ge> M
           then (case split_internal M L g n' ks' cs' of
                   Inl e \<Rightarrow> Inl e
                 | Inr (node, new_sibling, median, g') \<Rightarrow>
                     Inr (node, Some (new_sibling, median), g'))
           else Inr (Internal n' ks' cs', None, g))"

function insert_recursive ::
  "nat \<Rightarrow> ('k::linorder, 'v) Layout \<Rightarrow> Arena option \<Rightarrow> ('k, 'v) Node \<Rightarrow> 'k \<Rightarrow> 'v \<Rightarrow>
   error + (('k, 'v) Node \<times> (('k, 'v) Node \<times> 'k) option \<times> Arena option)" where
  "insert_recursive M L g (Leaf n ks vs) key val = insert_leaf M L g n ks vs key val"
| "insert_recursive M L g (Internal n ks cs) key val =
     (let i = lower_index n ks key 0 in
      if length cs \<le> i then Inl Undefined
      else
        case insert_recursive M L g (cs ! i) key val of
          Inl e \<Rightarrow> Inl e
        | Inr (child, None, g') \<Rightarrow> Inr (Internal n ks (cs[i := child]), None, g')
        | Inr (child, Some (child_sibling, child_median), g') \<Rightarrow>
            insert_internal M L g' n ks (cs[i := child]) i child_sibling child_median)"
| "insert_recursive M L g Dangling key val = Inl Undefined"
  by pat_completeness auto
termination
proof (relation "measure (\<lambda>(M, L, g, node, key, val). size node)", goal_cases)
  case 1
  then show ?case by simp
next
  case (2 M L g n ks cs key val i)
  then have "cs ! i \<in> set cs" by simp
  then have "size (cs ! i) \<le> size_list size cs"
    by (simp add: size_list_estimation')
  then show ?case by simp
qed

text \<open>
  The tree is its root pointer; an operation takes and returns it together with the
  global arena.  \<open>BPlusTree_new\<close> is the constructor, \<open>insert_bpt\<close> is \<^verbatim>\<open>insert\<close>.
\<close>

definition BPlusTree_new ::
  "nat \<Rightarrow> ('k, 'v) Layout \<Rightarrow> Arena option \<Rightarrow> error + (('k, 'v) Node \<times> Arena option)" where
  "BPlusTree_new M L g =
     (case operator_new L g of
        Inl e \<Rightarrow> Inl e
      | Inr (p, g') \<Rightarrow> Inr (Leaf 0 (uninit_keys M L p) (uninit_vals M L p), g'))"

definition insert_bpt ::
  "nat \<Rightarrow> ('k::linorder, 'v) Layout \<Rightarrow> ('k, 'v) Node \<times> Arena option \<Rightarrow> 'k \<Rightarrow> 'v \<Rightarrow>
   error + (('k, 'v) Node \<times> Arena option)" where
  "insert_bpt M L t key val =
     (case insert_recursive M L (snd t) (fst t) key val of
        Inl e \<Rightarrow> Inl e
      | Inr (root, None, g') \<Rightarrow> Inr (root, g')
      | Inr (root, Some (new_child, median), g') \<Rightarrow>
          (case operator_new L g' of
             Inl e \<Rightarrow> Inl e
           | Inr (p, g'') \<Rightarrow>
               Inr (Internal (u16 1) ((uninit_keys M L p)[0 := median])
                      ((uninit_children M)[0 := root, 1 := new_child]), g'')))"

text \<open>A sequence of \<^verbatim>\<open>insert\<close> calls, stopped by the first one that throws.\<close>

fun insert_all ::
  "nat \<Rightarrow> ('k::linorder, 'v) Layout \<Rightarrow> ('k, 'v) Node \<times> Arena option \<Rightarrow> ('k \<times> 'v) list \<Rightarrow>
   error + (('k, 'v) Node \<times> Arena option)" where
  "insert_all M L t [] = Inr t"
| "insert_all M L t ((k, v) # kvs) =
     (case insert_bpt M L t k v of
        Inl e \<Rightarrow> Inl e
      | Inr t' \<Rightarrow> insert_all M L t' kvs)"

text \<open>A tree built from nothing: the constructor, then the inserts.\<close>

definition build ::
  "nat \<Rightarrow> ('k::linorder, 'v) Layout \<Rightarrow> Arena option \<Rightarrow> ('k \<times> 'v) list \<Rightarrow>
   error + (('k, 'v) Node \<times> Arena option)" where
  "build M L g kvs =
     (case BPlusTree_new M L g of
        Inl e \<Rightarrow> Inl e
      | Inr t \<Rightarrow> insert_all M L t kvs)"

section \<open>Lookup\<close>

text \<open>
  \<^verbatim>\<open>while (i < curr->num_keys && key >= curr->keys[i]) i++;\<close>  The descent loop of
  \<^verbatim>\<open>findLinear\<close>; \<^verbatim>\<open>remove_recursive\<close> starts with the same loop.
\<close>

function upper_index :: "nat \<Rightarrow> ('k::linorder) list \<Rightarrow> 'k \<Rightarrow> nat \<Rightarrow> nat" where
  "upper_index n ks key i =
     (if i < n \<and> key \<ge> ks ! i then upper_index n ks key (i + 1) else i)"
  by pat_completeness auto
termination
  by (relation "measure (\<lambda>(n, ks, key, i). n - i)") auto

text \<open>
  The leaf scans return the index of the hit; the caller stores \<^verbatim>\<open>values[index]\<close> into
  \<^verbatim>\<open>val_out\<close> and returns \<^verbatim>\<open>true\<close>.  A lookup result \<open>Some v\<close> is \<^verbatim>\<open>true\<close> with
  \<^verbatim>\<open>val_out = v\<close>, \<open>None\<close> is \<^verbatim>\<open>false\<close>.
\<close>

function linear_leaf :: "nat \<Rightarrow> 'k list \<Rightarrow> 'k \<Rightarrow> nat \<Rightarrow> nat option" where
  "linear_leaf n ks key i =
     (if i < n
      then (if ks ! i = key then Some i else linear_leaf n ks key (i + 1))
      else None)"
  by pat_completeness auto
termination
  by (relation "measure (\<lambda>(n, ks, key, i). n - i)") auto

function findLinear :: "('k::linorder, 'v) Node \<Rightarrow> 'k \<Rightarrow> error + 'v option" where
  "findLinear (Leaf n ks vs) key = Inr (map_option (\<lambda>i. vs ! i) (linear_leaf n ks key 0))"
| "findLinear (Internal n ks cs) key =
     (let i = upper_index n ks key 0 in
      if length cs \<le> i then Inl Undefined else findLinear (cs ! i) key)"
| "findLinear Dangling key = Inl Undefined"
  by pat_completeness auto
termination
proof (relation "measure (\<lambda>(node, key). size node)", goal_cases)
  case 1
  then show ?case by simp
next
  case (2 n ks cs key i)
  then have "cs ! i \<in> set cs" by simp
  then have "size (cs ! i) \<le> size_list size cs"
    by (simp add: size_list_estimation')
  then show ?case by simp
qed

text \<open>
  The binary search of \<^verbatim>\<open>findBinary\<close> in an internal node, with \<^verbatim>\<open>int lo, hi, i, mid\<close>; the
  loop returns \<open>i\<close> and \<open>hi\<close>.  Inside the loop \<open>0 \<le> lo \<le> mid \<le> hi\<close>, so that the C++ division
  (towards zero) is \<open>div\<close> and \<open>mid\<close> is a natural number.
\<close>

function binary_child_loop ::
  "('k::linorder) list \<Rightarrow> 'k \<Rightarrow> int \<Rightarrow> int \<Rightarrow> int \<Rightarrow> int \<times> int" where
  "binary_child_loop ks key lo hi i =
     (if lo \<le> hi
      then (let mid = lo + (hi - lo) div 2 in
            if ks ! nat mid \<le> key
            then binary_child_loop ks key (mid + 1) hi i
            else binary_child_loop ks key lo (mid - 1) mid)
      else (i, hi))"
  by pat_completeness auto
termination
  by (relation "measure (\<lambda>(ks, key, lo, hi, i). nat (hi - lo + 1))") auto

text \<open>
  The child index \<^verbatim>\<open>findBinary\<close> descends into.  With \<^verbatim>\<open>num_keys = 0\<close> the test after the
  loop reads \<^verbatim>\<open>keys[-1]\<close>.
\<close>

definition binary_child :: "nat \<Rightarrow> ('k::linorder) list \<Rightarrow> 'k \<Rightarrow> error + int" where
  "binary_child n ks key =
     (case binary_child_loop ks key 0 (int n - 1) (int n - 1) of
        (i, hi) \<Rightarrow>
          if i = hi
          then (if i < 0 then Inl Undefined
                else if ks ! nat i > key then Inr i else Inr (i + 1))
          else Inr i)"

function binary_leaf_loop ::
  "('k::linorder) list \<Rightarrow> 'k \<Rightarrow> int \<Rightarrow> int \<Rightarrow> int \<Rightarrow> int \<times> int" where
  "binary_leaf_loop ks key lo hi i =
     (if lo \<le> hi
      then (let mid = lo + (hi - lo) div 2 in
            if ks ! nat mid < key
            then binary_leaf_loop ks key (mid + 1) hi i
            else binary_leaf_loop ks key lo (mid - 1) mid)
      else (i, hi))"
  by pat_completeness auto
termination
  by (relation "measure (\<lambda>(ks, key, lo, hi, i). nat (hi - lo + 1))") auto

definition binary_leaf :: "nat \<Rightarrow> ('k::linorder) list \<Rightarrow> 'k \<Rightarrow> nat option" where
  "binary_leaf n ks key =
     (case binary_leaf_loop ks key 0 (int n - 1) (int n - 1) of
        (i, hi) \<Rightarrow>
          if i \<ge> 0 \<and> i < int n \<and> ks ! nat i = key then Some (nat i) else None)"

function findBinary :: "('k::linorder, 'v) Node \<Rightarrow> 'k \<Rightarrow> error + 'v option" where
  "findBinary (Leaf n ks vs) key = Inr (map_option (\<lambda>i. vs ! i) (binary_leaf n ks key))"
| "findBinary (Internal n ks cs) key =
     (case binary_child n ks key of
        Inl e \<Rightarrow> Inl e
      | Inr j \<Rightarrow>
          if j < 0 \<or> int (length cs) \<le> j then Inl Undefined
          else findBinary (cs ! nat j) key)"
| "findBinary Dangling key = Inl Undefined"
  by pat_completeness auto
termination
proof (relation "measure (\<lambda>(node, key). size node)", goal_cases)
  case 1
  then show ?case by simp
next
  case (2 n ks cs key j)
  then have "nat j < length cs" by linarith
  then have "cs ! nat j \<in> set cs" by simp
  then have "size (cs ! nat j) \<le> size_list size cs"
    by (simp add: size_list_estimation')
  then show ?case by simp
qed

text \<open>
  The SIMD lookup, for \<^verbatim>\<open>KeyType = int\<close>.  Keys are 32-bit signed integers; they are only
  copied and compared, never computed with, so they are modelled as integers and every
  statement below holds for the 32-bit ones in particular.

  \<^verbatim>\<open>_mm256_loadu_si256(&keys[i])\<close> loads the eight lanes \<open>i, \<dots>, i + 7\<close>: the slots of the
  array, initialised or not, and past its end whatever follows the array in memory,
  which is \<open>past\<close>.  \<^verbatim>\<open>_mm256_cmpgt_epi32\<close> and \<^verbatim>\<open>_mm256_cmpeq_epi32\<close> compare lane by lane,
  \<^verbatim>\<open>_mm256_movemask_ps\<close> packs the lanes' results into the bits of a number (lane 0 is
  the lowest bit), \<^verbatim>\<open>__builtin_ctz\<close> counts the zero bits below the lowest set bit (it is
  called on non-zero masks only).  The prefetches do nothing observable.
\<close>

definition loadu :: "(nat \<Rightarrow> int) \<Rightarrow> int list \<Rightarrow> nat \<Rightarrow> int list" where
  "loadu past ks i = map (\<lambda>j. if j < length ks then ks ! j else past j) [i..<i + 8]"

definition cmpgt :: "int list \<Rightarrow> int \<Rightarrow> bool list" where
  "cmpgt chunk target = map (\<lambda>x. x > target) chunk"

definition cmpeq :: "int list \<Rightarrow> int \<Rightarrow> bool list" where
  "cmpeq chunk target = map (\<lambda>x. x = target) chunk"

fun movemask :: "bool list \<Rightarrow> nat" where
  "movemask [] = 0"
| "movemask (b # bs) = (if b then 1 else 0) + 2 * movemask bs"

function ctz :: "nat \<Rightarrow> nat" where
  "ctz m = (if m = 0 \<or> odd m then 0 else 1 + ctz (m div 2))"
  by pat_completeness auto
termination
  by (relation "measure (\<lambda>m. m)") auto

function simd_child :: "(nat \<Rightarrow> int) \<Rightarrow> nat \<Rightarrow> int list \<Rightarrow> int \<Rightarrow> nat \<Rightarrow> nat" where
  "simd_child past n ks key i =
     (if i < n
      then (let mask = movemask (cmpgt (loadu past ks i) key) in
            if mask \<noteq> 0 \<and> i + ctz mask < n then i + ctz mask
            else simd_child past n ks key (i + 8))
      else n)"
  by pat_completeness auto
termination
  by (relation "measure (\<lambda>(past, n, ks, key, i). n - i)") auto

function simd_leaf :: "(nat \<Rightarrow> int) \<Rightarrow> nat \<Rightarrow> int list \<Rightarrow> int \<Rightarrow> nat \<Rightarrow> nat option" where
  "simd_leaf past n ks key i =
     (if i < n
      then (let mask = movemask (cmpeq (loadu past ks i) key) in
            if mask \<noteq> 0 \<and> i + ctz mask < n then Some (i + ctz mask)
            else simd_leaf past n ks key (i + 8))
      else None)"
  by pat_completeness auto
termination
  by (relation "measure (\<lambda>(past, n, ks, key, i). n - i)") auto

function findSIMD :: "(nat \<Rightarrow> int) \<Rightarrow> (int, 'v) Node \<Rightarrow> int \<Rightarrow> error + 'v option" where
  "findSIMD past (Leaf n ks vs) key =
     Inr (map_option (\<lambda>i. vs ! i) (simd_leaf past n ks key 0))"
| "findSIMD past (Internal n ks cs) key =
     (let result_index = simd_child past n ks key 0 in
      if length cs \<le> result_index then Inl Undefined
      else findSIMD past (cs ! result_index) key)"
| "findSIMD past Dangling key = Inl Undefined"
  by pat_completeness auto
termination
proof (relation "measure (\<lambda>(past, node, key). size node)", goal_cases)
  case 1
  then show ?case by simp
next
  case (2 past n ks cs key i)
  then have "cs ! i \<in> set cs" by simp
  then have "size (cs ! i) \<le> size_list size cs"
    by (simp add: size_list_estimation')
  then show ?case by simp
qed

text \<open>The overload of \<^verbatim>\<open>findSIMD\<close> for every other key type.\<close>

definition findSIMD_other :: "('k::linorder, 'v) Node \<Rightarrow> 'k \<Rightarrow> error + 'v option" where
  "findSIMD_other node key = findBinary node key"

section \<open>Removal\<close>

text \<open>\<^verbatim>\<open>for (int j = k; j < node->num_keys - 1; j++) a[j] = a[j+1];\<close>\<close>

function shift_left :: "'a list \<Rightarrow> nat \<Rightarrow> nat \<Rightarrow> 'a list" where
  "shift_left xs j n =
     (if int j < int n - 1 then shift_left (xs[j := xs ! (j + 1)]) (j + 1) n else xs)"
  by pat_completeness auto
termination
  by (relation "measure (\<lambda>(xs, j, n). n - j)") auto

function remove_leaf :: "nat \<Rightarrow> 'k list \<Rightarrow> 'v list \<Rightarrow> 'k \<Rightarrow> nat \<Rightarrow> ('k, 'v) Node" where
  "remove_leaf n ks vs key k =
     (if k < n
      then (if ks ! k = key
            then Leaf (u16 (int n - 1)) (shift_left ks k n) (shift_left vs k n)
            else remove_leaf n ks vs key (k + 1))
      else Leaf n ks vs)"
  by pat_completeness auto
termination
  by (relation "measure (\<lambda>(n, ks, vs, key, k). n - k)") auto

function remove_recursive :: "('k::linorder, 'v) Node \<Rightarrow> 'k \<Rightarrow> error + ('k, 'v) Node" where
  "remove_recursive (Leaf n ks vs) key = Inr (remove_leaf n ks vs key 0)"
| "remove_recursive (Internal n ks cs) key =
     (let i = upper_index n ks key 0 in
      if length cs \<le> i then Inl Undefined
      else
        case remove_recursive (cs ! i) key of
          Inl e \<Rightarrow> Inl e
        | Inr child \<Rightarrow> Inr (Internal n ks (cs[i := child])))"
| "remove_recursive Dangling key = Inl Undefined"
  by pat_completeness auto
termination
proof (relation "measure (\<lambda>(node, key). size node)", goal_cases)
  case 1
  then show ?case by simp
next
  case (2 n ks cs key i)
  then have "cs ! i \<in> set cs" by simp
  then have "size (cs ! i) \<le> size_list size cs"
    by (simp add: size_list_estimation')
  then show ?case by simp
qed

definition remove_bpt :: "('k::linorder, 'v) Node \<Rightarrow> 'k \<Rightarrow> error + ('k, 'v) Node" where
  "remove_bpt root key = remove_recursive root key"

text \<open>
  The calls that change a tree, \<^verbatim>\<open>insert(key, value)\<close> and \<^verbatim>\<open>remove(key)\<close>, and a sequence of
  them, stopped by the first one that does not return.
\<close>

datatype ('k, 'v) call = Insert 'k 'v | Remove 'k

fun call_all ::
  "nat \<Rightarrow> ('k::linorder, 'v) Layout \<Rightarrow> ('k, 'v) Node \<times> Arena option \<Rightarrow> ('k, 'v) call list \<Rightarrow>
   error + (('k, 'v) Node \<times> Arena option)" where
  "call_all M L t [] = Inr t"
| "call_all M L t (Insert k v # calls) =
     (case insert_bpt M L t k v of
        Inl e \<Rightarrow> Inl e
      | Inr t' \<Rightarrow> call_all M L t' calls)"
| "call_all M L t (Remove k # calls) =
     (case remove_bpt (fst t) k of
        Inl e \<Rightarrow> Inl e
      | Inr root \<Rightarrow> call_all M L (root, snd t) calls)"

text \<open>A tree of the program: the constructor, then calls of \<^verbatim>\<open>insert\<close> and \<^verbatim>\<open>remove\<close>.\<close>

definition run ::
  "nat \<Rightarrow> ('k::linorder, 'v) Layout \<Rightarrow> Arena option \<Rightarrow> ('k, 'v) call list \<Rightarrow>
   error + (('k, 'v) Node \<times> Arena option)" where
  "run M L g calls =
     (case BPlusTree_new M L g of
        Inl e \<Rightarrow> Inl e
      | Inr t \<Rightarrow> call_all M L t calls)"

section \<open>What is observed of a tree, and its invariants\<close>

text \<open>
  The live part of a node is its first \<^verbatim>\<open>num_keys\<close> keys (and values), and for an internal
  node its first \<^verbatim>\<open>num_keys + 1\<close> children.  The definitions of this section are not code
  of the repository: they state what the specification says of a tree.
\<close>

lemma size_live_child [termination_simp]:
  "c \<in> set (take n cs) \<Longrightarrow> size c < Suc (a + size_list size cs)"
proof -
  assume "c \<in> set (take n cs)"
  then have "c \<in> set cs" by (rule in_set_takeD)
  then have "size c \<le> size_list size cs" by (rule size_list_estimation') simp
  then show ?thesis by simp
qed

text \<open>The (key, value) pairs in the leaf slots, left to right.\<close>

fun entries :: "('k, 'v) Node \<Rightarrow> ('k \<times> 'v) list" where
  "entries (Leaf n ks vs) = zip (take n ks) (take n vs)"
| "entries (Internal n ks cs) = concat (map entries (take (n + 1) cs))"
| "entries Dangling = []"

text \<open>The keys in the leaves below a node.\<close>

fun tree_keys :: "('k, 'v) Node \<Rightarrow> 'k set" where
  "tree_keys (Leaf n ks vs) = set (take n ks)"
| "tree_keys (Internal n ks cs) = (\<Union>c \<in> set (take (n + 1) cs). tree_keys c)"
| "tree_keys Dangling = {}"

fun node_count :: "('k, 'v) Node \<Rightarrow> nat" where
  "node_count (Leaf n ks vs) = 1"
| "node_count (Internal n ks cs) = 1 + sum_list (map node_count (take (n + 1) cs))"
| "node_count Dangling = 0"

text \<open>The length of the path from the node to each of its leaves.\<close>

fun leaf_depths :: "('k, 'v) Node \<Rightarrow> nat list" where
  "leaf_depths (Leaf n ks vs) = [0]"
| "leaf_depths (Internal n ks cs) = map Suc (concat (map leaf_depths (take (n + 1) cs)))"
| "leaf_depths Dangling = []"

definition balanced :: "('k, 'v) Node \<Rightarrow> bool" where
  "balanced t = (\<forall>d \<in> set (leaf_depths t). \<forall>d' \<in> set (leaf_depths t). d = d')"

text \<open>
  Shape: \<^verbatim>\<open>num_keys\<close> is a \<^verbatim>\<open>uint16_t\<close>, the live slots exist in the arrays, and every live
  child slot holds a node.
\<close>

fun well_formed :: "('k, 'v) Node \<Rightarrow> bool" where
  "well_formed (Leaf n ks vs) = (u16 (int n) = n \<and> n \<le> length ks \<and> n \<le> length vs)"
| "well_formed (Internal n ks cs) =
     (u16 (int n) = n \<and> n \<le> length ks \<and> n < length cs
      \<and> (\<forall>c \<in> set (take (n + 1) cs). well_formed c))"
| "well_formed Dangling = False"

text \<open>Ordering: \<^verbatim>\<open>keys[i] < keys[i+1]\<close> within the live keys of every node.\<close>

fun ordered :: "('k::linorder, 'v) Node \<Rightarrow> bool" where
  "ordered (Leaf n ks vs) = sorted_wrt (<) (take n ks)"
| "ordered (Internal n ks cs) =
     (sorted_wrt (<) (take n ks) \<and> (\<forall>c \<in> set (take (n + 1) cs). ordered c))"
| "ordered Dangling = True"

text \<open>
  Separators: every key below \<^verbatim>\<open>children[i]\<close> is less than \<^verbatim>\<open>keys[i]\<close>, which is at most
  every key below \<^verbatim>\<open>children[i+1]\<close>.
\<close>

fun separated :: "('k::linorder, 'v) Node \<Rightarrow> bool" where
  "separated (Leaf n ks vs) = True"
| "separated (Internal n ks cs) =
     ((\<forall>i < n. (\<forall>k \<in> tree_keys (cs ! i). k < ks ! i)
             \<and> (\<forall>k \<in> tree_keys (cs ! (i + 1)). ks ! i \<le> k))
      \<and> (\<forall>c \<in> set (take (n + 1) cs). separated c))"
| "separated Dangling = True"

definition valid_tree :: "('k::linorder, 'v) Node \<Rightarrow> bool" where
  "valid_tree t = (well_formed t \<and> ordered t \<and> separated t \<and> balanced t)"

text \<open>Every internal node has at least one separator.\<close>

fun separators_present :: "('k, 'v) Node \<Rightarrow> bool" where
  "separators_present (Leaf n ks vs) = True"
| "separators_present (Internal n ks cs) =
     (0 < n \<and> (\<forall>c \<in> set (take (n + 1) cs). separators_present c))"
| "separators_present Dangling = True"

text \<open>
  The invariant of \<^verbatim>\<open>insert\<close> between calls, for fan-out \<open>M\<close> and height \<open>h\<close>: the arrays have
  their declared sizes, every node has room for one more key, and every leaf is \<open>h\<close> levels
  below the node.
\<close>

fun node_inv :: "nat \<Rightarrow> nat \<Rightarrow> ('k, 'v) Node \<Rightarrow> bool" where
  "node_inv M h (Leaf n ks vs) = (h = 0 \<and> n < M \<and> length ks = M \<and> length vs = M)"
| "node_inv M h (Internal n ks cs) =
     (0 < h \<and> n < M \<and> length ks = M \<and> length cs = M + 1 \<and>
      (\<forall>c \<in> set (take (n + 1) cs). node_inv M (h - 1) c))"
| "node_inv M h Dangling = False"


text \<open>
  The descent rule in the specification's words: the smallest index \<open>i\<close> with
  \<open>key < k[i]\<close>, and \<open>n\<close> if there is none.  \<open>reached_leaf\<close> is the leaf the rule leads to,
  \<open>replace_reached\<close> the tree with that leaf replaced and nothing else changed.
\<close>

definition descent_index :: "nat \<Rightarrow> ('k::linorder) list \<Rightarrow> 'k \<Rightarrow> nat" where
  "descent_index n ks key = length (takeWhile (\<lambda>s. s \<le> key) (take n ks))"

function reached_leaf :: "('k::linorder, 'v) Node \<Rightarrow> 'k \<Rightarrow> ('k, 'v) Node option" where
  "reached_leaf (Leaf n ks vs) key = Some (Leaf n ks vs)"
| "reached_leaf (Internal n ks cs) key =
     (if descent_index n ks key < length cs
      then reached_leaf (cs ! descent_index n ks key) key else None)"
| "reached_leaf Dangling key = None"
  by pat_completeness auto
termination
proof (relation "measure (\<lambda>(node, key). size node)", goal_cases)
  case 1
  then show ?case by simp
next
  case (2 n ks cs key)
  then have "cs ! descent_index n ks key \<in> set cs" by simp
  then have "size (cs ! descent_index n ks key) \<le> size_list size cs"
    by (simp add: size_list_estimation')
  then show ?case by simp
qed

function replace_reached :: "('k::linorder, 'v) Node \<Rightarrow> 'k \<Rightarrow> ('k, 'v) Node \<Rightarrow> ('k, 'v) Node" where
  "replace_reached (Leaf n ks vs) key new = new"
| "replace_reached (Internal n ks cs) key new =
     (if descent_index n ks key < length cs
      then Internal n ks (cs[descent_index n ks key :=
             replace_reached (cs ! descent_index n ks key) key new])
      else Internal n ks cs)"
| "replace_reached Dangling key new = Dangling"
  by pat_completeness auto
termination
proof (relation "measure (\<lambda>(node, key, new). size node)", goal_cases)
  case 1
  then show ?case by simp
next
  case (2 n ks cs key new)
  then have "cs ! descent_index n ks key \<in> set cs" by simp
  then have "size (cs ! descent_index n ks key) \<le> size_list size cs"
    by (simp add: size_list_estimation')
  then show ?case by simp
qed

text \<open>Removing the first pair that carries a key.\<close>

fun erase_first :: "'k \<Rightarrow> ('k \<times> 'v) list \<Rightarrow> ('k \<times> 'v) list" where
  "erase_first key [] = []"
| "erase_first key ((k, v) # kvs) = (if k = key then kvs else (k, v) # erase_first key kvs)"

section \<open>A concrete instance\<close>

text \<open>
  \<^verbatim>\<open>BPlusTree<int, int, 4>\<close> on x86-64: \<^verbatim>\<open>sizeof(Node)\<close> is 64.  The arena of the examples
  has 4096 bytes, all zero.
\<close>

definition example_layout :: "(int, int) Layout" where
  "example_layout = \<lparr>node_bytes = 64, raw_keys = (\<lambda>p i. 0), raw_vals = (\<lambda>p i. 0)\<rparr>"

definition example_arena :: "Arena option" where
  "example_arena = Some \<lparr>memory = 0, offset = 0, capacity = 4096\<rparr>"

section \<open>Arena: proofs\<close>

lemma and_not_63: "(x::64 word) AND NOT 63 = push_bit 6 (drop_bit 6 x)"
proof -
  have "(63::64 word) = mask 6" by (simp add: mask_eq_exp_minus_1)
  then show ?thesis
    by (auto simp add: bit_eq_iff bit_simps)
qed

lemma unat_and_not_63: "unat ((x::64 word) AND NOT 63) = unat x div 64 * 64"
proof -
  have lt: "unat x < 2 ^ 64" using unsigned_less [of x] by simp
  have le: "unat x div 64 * 64 \<le> unat x" by simp
  have "unat (push_bit 6 (drop_bit 6 x)) = (unat x div 64 * 64) mod 2 ^ 64"
    by (simp add: push_bit_eq_mult unat_word_ariths unat_drop_bit_eq drop_bit_eq_div
        mod_mult_left_eq)
  also have "\<dots> = unat x div 64 * 64"
    using lt le by simp
  finally show ?thesis unfolding and_not_63 .
qed

lemma round_up_64_bounds:
  "64 dvd round_up_64 n" "n \<le> round_up_64 n" "round_up_64 n < n + 64"
  by (simp_all add: round_up_64_def)

lemma unat_aligned:
  assumes "round_up_64 (unat bytes) < 2 ^ 64"
  shows "unat ((bytes + 63) AND NOT 63 :: 64 word) = round_up_64 (unat bytes)"
proof -
  have "unat bytes + 63 < 2 ^ 64"
  proof (rule ccontr)
    assume "\<not> unat bytes + 63 < 2 ^ 64"
    then have "2 ^ 64 \<le> unat bytes + 63" by simp
    then have "2 ^ 64 div 64 * 64 \<le> (unat bytes + 63) div 64 * (64::nat)"
      by (intro mult_le_mono1 div_le_mono)
    with assms show False by (simp add: round_up_64_def)
  qed
  then have "unat (bytes + 63) = unat bytes + 63"
    by (simp add: unat_word_ariths)
  then show ?thesis
    unfolding unat_and_not_63 round_up_64_def by simp
qed

lemma allocate_no_wrap:
  assumes "unat (offset a) + round_up_64 (unat bytes) < 2 ^ 64"
  shows "allocate a bytes =
    (if unat (capacity a) < unat (offset a) + round_up_64 (unat bytes)
     then (Inl OutOfArena, a)
     else (Inr (memory a + offset a),
           a\<lparr>offset := offset a + of_nat (round_up_64 (unat bytes))\<rparr>))"
proof -
  let ?al = "(bytes + 63) AND NOT 63 :: 64 word"
  from assms have r: "round_up_64 (unat bytes) < 2 ^ 64" by simp
  have al: "unat ?al = round_up_64 (unat bytes)" by (rule unat_aligned [OF r])
  then have sum: "unat (offset a + ?al) = unat (offset a) + round_up_64 (unat bytes)"
    using assms by (simp add: unat_word_ariths)
  have of: "?al = of_nat (round_up_64 (unat bytes))"
  proof -
    have "?al = of_nat (unat ?al)" by (simp only: of_nat_unat ucast_id)
    then show ?thesis unfolding al .
  qed
  show ?thesis
    unfolding allocate_def Let_def word_less_nat_alt sum of [symmetric]
    by simp
qed

lemma unat_offset_after:
  assumes "unat (offset a) + r < 2 ^ 64"
  shows "unat (offset (a\<lparr>offset := offset a + of_nat r\<rparr>)) = unat (offset a) + r"
proof -
  from assms have "r < 2 ^ 64" by simp
  then have "unat (of_nat r :: 64 word) = r" by (simp add: unat_of_nat)
  with assms show ?thesis by (simp add: unat_word_ariths)
qed

lemma allocate_all_used:
  "unat (offset a) + sum_list (map (\<lambda>b. round_up_64 (unat b)) bs) < 2 ^ 64 \<Longrightarrow>
   allocate_all a bs = Inr a' \<Longrightarrow>
   unat (get_used_memory a') = unat (offset a) + sum_list (map (\<lambda>b. round_up_64 (unat b)) bs)"
proof (induction bs arbitrary: a)
  case Nil
  then show ?case by (simp add: get_used_memory_def)
next
  case (Cons b bs)
  let ?r = "round_up_64 (unat b)"
  let ?a1 = "a\<lparr>offset := offset a + of_nat ?r\<rparr>"
  from Cons.prems(1) have nw: "unat (offset a) + ?r < 2 ^ 64" by simp
  have off: "unat (offset ?a1) = unat (offset a) + ?r"
    by (rule unat_offset_after [OF nw])
  from Cons.prems(2) have ok: "\<not> unat (capacity a) < unat (offset a) + ?r"
    by (auto simp: allocate_no_wrap [OF nw] split: if_splits)
  with Cons.prems(2) have rest: "allocate_all ?a1 bs = Inr a'"
    by (simp add: allocate_no_wrap [OF nw])
  have "unat (get_used_memory a') =
        unat (offset ?a1) + sum_list (map (\<lambda>b. round_up_64 (unat b)) bs)"
  proof (rule Cons.IH [OF _ rest])
    show "unat (offset ?a1) + sum_list (map (\<lambda>b. round_up_64 (unat b)) bs) < 2 ^ 64"
      using Cons.prems(1) off by simp
  qed
  then show ?case using off by simp
qed


section \<open>Arena: the claims\<close>

text \<open>
  C8, as stated, fails on the code: \<^verbatim>\<open>(bytes + 63) & ~63\<close> and \<^verbatim>\<open>offset + aligned_bytes\<close> are
  \<^verbatim>\<open>size_t\<close> computations and wrap.  A request of \<open>2\<^sup>6\<^sup>4 - 1\<close> bytes is "rounded" to 0, so on
  an arena of capacity 1024 the call succeeds and reserves nothing, although the request
  rounded up to a multiple of 64 exceeds the capacity.
\<close>

theorem allocate_wraps_counterexample:
  "unat (capacity \<lparr>memory = 0, offset = 0, capacity = 1024\<rparr>)
     < unat (offset \<lparr>memory = 0, offset = 0, capacity = 1024\<rparr>)
       + round_up_64 (unat (18446744073709551615 :: 64 word))
   \<and> allocate \<lparr>memory = 0, offset = 0, capacity = 1024\<rparr> 18446744073709551615
       = (Inr 0, \<lparr>memory = 0, offset = 0, capacity = 1024\<rparr>)"
  by (simp add: allocate_def round_up_64_def)

text \<open>
  C8, amended: as long as the current offset plus the rounded sizes stays below \<open>2\<^sup>6\<^sup>4\<close> (no
  \<^verbatim>\<open>size_t\<close> wrap-around), \<^verbatim>\<open>allocate(bytes)\<close> rounds \<open>bytes\<close> up to the next multiple of 64;
  it throws \<open>OutOfArena\<close>, leaving the arena as it was, exactly when offset plus rounded
  size exceeds the capacity; otherwise it returns the address at the current offset and
  advances the offset by the rounded size; and after any further sequence \<open>rest\<close> of
  successful allocations \<^verbatim>\<open>get_used_memory()\<close> has grown by the sum of the rounded sizes.
\<close>

theorem allocate_rounds_and_accounts:
  assumes "unat (offset a) + round_up_64 (unat bytes)
             + sum_list (map (\<lambda>b. round_up_64 (unat b)) rest) < 2 ^ 64"
  shows "64 dvd round_up_64 (unat bytes)
       \<and> unat bytes \<le> round_up_64 (unat bytes)
       \<and> round_up_64 (unat bytes) < unat bytes + 64
       \<and> (if unat (capacity a) < unat (offset a) + round_up_64 (unat bytes)
          then allocate a bytes = (Inl OutOfArena, a)
          else fst (allocate a bytes) = Inr (memory a + offset a)
             \<and> capacity (snd (allocate a bytes)) = capacity a
             \<and> memory (snd (allocate a bytes)) = memory a
             \<and> unat (get_used_memory (snd (allocate a bytes)))
                 = unat (get_used_memory a) + round_up_64 (unat bytes)
             \<and> (\<forall>a'. allocate_all a (bytes # rest) = Inr a' \<longrightarrow>
                   unat (get_used_memory a')
                   = unat (get_used_memory a) + round_up_64 (unat bytes)
                     + sum_list (map (\<lambda>b. round_up_64 (unat b)) rest)))"
proof -
  let ?r = "round_up_64 (unat bytes)"
  from assms have nw: "unat (offset a) + ?r < 2 ^ 64" by simp
  note step = allocate_no_wrap [OF nw]
  have seq: "unat (get_used_memory a')
      = unat (get_used_memory a) + ?r + sum_list (map (\<lambda>b. round_up_64 (unat b)) rest)"
    if "allocate_all a (bytes # rest) = Inr a'" for a'
    using allocate_all_used [of a "bytes # rest" a'] assms that
    by (simp add: get_used_memory_def)
  show ?thesis
  proof (cases "unat (capacity a) < unat (offset a) + ?r")
    case True
    then show ?thesis using step by (simp add: round_up_64_bounds)
  next
    case False
    then have "allocate a bytes = (Inr (memory a + offset a), a\<lparr>offset := offset a + of_nat ?r\<rparr>)"
      using step by simp
    then show ?thesis
      using False seq unat_offset_after [OF nw]
      by (simp add: round_up_64_bounds get_used_memory_def)
  qed
qed

theorem allocate_rounds_and_accounts_witness:
  "allocate \<lparr>memory = 4096, offset = 64, capacity = 1024\<rparr> 100
     = (Inr 4160, \<lparr>memory = 4096, offset = 192, capacity = 1024\<rparr>)
   \<and> round_up_64 (unat (100 :: 64 word)) = 128
   \<and> allocate_all \<lparr>memory = 4096, offset = 64, capacity = 1024\<rparr> [100, 1, 64]
       = Inr \<lparr>memory = 4096, offset = 320, capacity = 1024\<rparr>
   \<and> unat (get_used_memory \<lparr>memory = 4096, offset = 320, capacity = 1024\<rparr>)
       = unat (get_used_memory \<lparr>memory = 4096, offset = 64, capacity = 1024\<rparr>)
         + round_up_64 (unat (100 :: 64 word))
         + sum_list (map (\<lambda>b. round_up_64 (unat b)) [1, 64 :: 64 word])"
  using allocate_rounds_and_accounts
    [of "\<lparr>memory = 4096, offset = 64, capacity = 1024\<rparr>" 100 "[1, 64]"]
  by (simp add: allocate_def round_up_64_def get_used_memory_def)

text \<open>
  C10: a failed \<^verbatim>\<open>allocate\<close> throws before it writes \<^verbatim>\<open>offset\<close>.  When \<^verbatim>\<open>allocate(bytes)\<close>
  fails, the error is \<open>OutOfArena\<close>, the arena (its offset, hence \<^verbatim>\<open>get_used_memory()\<close>)
  is unchanged, and a following request \<open>b'\<close> whose rounded size still fits below the
  capacity succeeds at the unchanged offset.
\<close>

theorem allocate_failure_atomic:
  assumes "fst (allocate a bytes) = Inl e"
  shows "e = OutOfArena
       \<and> snd (allocate a bytes) = a
       \<and> get_used_memory (snd (allocate a bytes)) = get_used_memory a
       \<and> (\<forall>b'. unat (offset a) + round_up_64 (unat b') \<le> unat (capacity a) \<longrightarrow>
             fst (allocate (snd (allocate a bytes)) b') = Inr (memory a + offset a))"
proof -
  from assms have e: "e = OutOfArena" and same: "snd (allocate a bytes) = a"
    by (auto simp: allocate_def Let_def split: if_splits)
  have "fst (allocate a b') = Inr (memory a + offset a)"
    if fits: "unat (offset a) + round_up_64 (unat b') \<le> unat (capacity a)" for b'
  proof -
    have "unat (capacity a) < 2 ^ 64" using unsigned_less [of "capacity a"] by simp
    with fits have nw: "unat (offset a) + round_up_64 (unat b') < 2 ^ 64" by simp
    show ?thesis using fits by (simp add: allocate_no_wrap [OF nw])
  qed
  with e same show ?thesis by simp
qed

theorem allocate_failure_atomic_witness:
  "fst (allocate \<lparr>memory = 0, offset = 960, capacity = 1024\<rparr> 100) = Inl OutOfArena
   \<and> snd (allocate \<lparr>memory = 0, offset = 960, capacity = 1024\<rparr> 100)
       = \<lparr>memory = 0, offset = 960, capacity = 1024\<rparr>
   \<and> fst (allocate (snd (allocate \<lparr>memory = 0, offset = 960, capacity = 1024\<rparr> 100)) 60)
       = Inr 960"
proof -
  have f: "fst (allocate \<lparr>memory = 0, offset = 960, capacity = 1024\<rparr> 100) = Inl OutOfArena"
    by (simp add: allocate_def)
  have fits: "unat (offset \<lparr>memory = 0, offset = 960, capacity = 1024\<rparr>)
      + round_up_64 (unat (60 :: 64 word))
      \<le> unat (capacity \<lparr>memory = 0, offset = 960, capacity = 1024\<rparr>)"
    by (simp add: round_up_64_def)
  note atomic = allocate_failure_atomic [OF f]
  from atomic have same: "snd (allocate \<lparr>memory = 0, offset = 960, capacity = 1024\<rparr> 100)
      = \<lparr>memory = 0, offset = 960, capacity = 1024\<rparr>"
    by (rule conjunct1 [OF conjunct2])
  from atomic have "\<forall>b'. unat (offset \<lparr>memory = 0, offset = 960, capacity = 1024\<rparr>)
        + round_up_64 (unat b')
        \<le> unat (capacity \<lparr>memory = 0, offset = 960, capacity = 1024\<rparr>) \<longrightarrow>
      fst (allocate (snd (allocate \<lparr>memory = 0, offset = 960, capacity = 1024\<rparr> 100)) b')
      = Inr (memory \<lparr>memory = 0, offset = 960, capacity = 1024\<rparr>
             + offset \<lparr>memory = 0, offset = 960, capacity = 1024\<rparr>)"
    by (rule conjunct2 [OF conjunct2 [OF conjunct2]])
  then have "fst (allocate (snd (allocate \<lparr>memory = 0, offset = 960, capacity = 1024\<rparr> 100)) 60)
      = Inr (memory \<lparr>memory = 0, offset = 960, capacity = 1024\<rparr>
             + offset \<lparr>memory = 0, offset = 960, capacity = 1024\<rparr>)"
    using fits by blast
  with f same show ?thesis by simp
qed

section \<open>The array loops\<close>

declare lower_index.simps [simp del] shift_right.simps [simp del] copy_from.simps [simp del]
  upper_index.simps [simp del] linear_leaf.simps [simp del] binary_child_loop.simps [simp del]
  binary_leaf_loop.simps [simp del] ctz.simps [simp del] simd_child.simps [simp del]
  simd_leaf.simps [simp del] shift_left.simps [simp del] remove_leaf.simps [simp del]

lemma u16_int [simp]: "n < 65536 \<Longrightarrow> u16 (int n) = n"
  by (simp add: u16_def)

lemma u16_int_Suc [simp]: "n < 65535 \<Longrightarrow> u16 (int n + 1) = Suc n"
  by (simp add: u16_def)

lemma u16_int_diff: "m \<le> n \<Longrightarrow> n < 65536 \<Longrightarrow> u16 (int n - int m) = n - m"
proof -
  assume a: "m \<le> n" "n < 65536"
  then have "(int n - int m) mod 65536 = int n - int m" by simp
  then show ?thesis unfolding u16_def by simp
qed

lemma length_shift_right [simp]: "length (shift_right xs k i) = length xs"
proof (induction xs k i rule: shift_right.induct)
  case (1 xs k i)
  show ?case by (subst shift_right.simps) (use 1 in simp)
qed

lemma nth_shift_right:
  "k < length xs \<Longrightarrow> j < length xs \<Longrightarrow>
   shift_right xs k i ! j = (if i < j \<and> j \<le> k then xs ! (j - 1) else xs ! j)"
proof (induction xs k i arbitrary: j rule: shift_right.induct)
  case (1 xs k i)
  show ?case
  proof (cases "i < k")
    case True
    let ?ys = "xs[k := xs ! (k - 1)]"
    have "shift_right xs k i ! j = shift_right ?ys (k - 1) i ! j"
      using True by (subst shift_right.simps) simp
    also have "\<dots> = (if i < j \<and> j \<le> k - 1 then ?ys ! (j - 1) else ?ys ! j)"
    proof (rule 1(1))
      show "i < k" by (rule True)
      show "k - 1 < length ?ys" using 1(2) by simp
      show "j < length ?ys" using 1(3) by simp
    qed
    also have "\<dots> = (if i < j \<and> j \<le> k then xs ! (j - 1) else xs ! j)"
      using 1(2,3) True by (auto simp: nth_list_update)
    finally show ?thesis .
  next
    case False
    then show ?thesis by (subst shift_right.simps) auto
  qed
qed

lemma take_shift_right_update:
  assumes "i \<le> n" "n < length xs"
  shows "take (Suc n) ((shift_right xs n i)[i := x]) = take i xs @ x # drop i (take n xs)"
proof (rule nth_equalityI)
  show "length (take (Suc n) ((shift_right xs n i)[i := x]))
      = length (take i xs @ x # drop i (take n xs))"
    using assms by simp
next
  fix j assume "j < length (take (Suc n) ((shift_right xs n i)[i := x]))"
  then have j: "j \<le> n" using assms by simp
  show "take (Suc n) ((shift_right xs n i)[i := x]) ! j
      = (take i xs @ x # drop i (take n xs)) ! j"
  proof -
    consider "j < i" | "j = i" | "i < j"
      by linarith
    then show ?thesis
    proof cases
      case 1
      then show ?thesis using assms j
        by (simp add: nth_shift_right nth_append)
    next
      case 2
      then show ?thesis using assms j
        by (simp add: nth_append)
    next
      case 3
      then obtain d where d: "j = Suc (i + d)"
        by (metis less_iff_Suc_add)
      then show ?thesis using assms j 3
        by (simp add: nth_shift_right nth_append)
    qed
  qed
qed

lemma drop_shift_right_update:
  assumes "i \<le> n" "n < length xs"
  shows "drop (Suc n) ((shift_right xs n i)[i := x]) = drop (Suc n) xs"
proof (rule nth_equalityI)
  show "length (drop (Suc n) ((shift_right xs n i)[i := x])) = length (drop (Suc n) xs)"
    by simp
next
  fix j assume "j < length (drop (Suc n) ((shift_right xs n i)[i := x]))"
  then have "Suc n + j < length xs" by simp
  then show "drop (Suc n) ((shift_right xs n i)[i := x]) ! j = drop (Suc n) xs ! j"
    using assms by (simp add: nth_shift_right)
qed

lemma length_copy_from [simp]: "length (copy_from dst src off cnt i) = length dst"
proof (induction dst src off cnt i rule: copy_from.induct)
  case (1 dst src off cnt i)
  show ?case by (subst copy_from.simps) (use 1 in simp)
qed

lemma nth_copy_from:
  "j < length dst \<Longrightarrow>
   copy_from dst src off cnt i ! j
     = (if i \<le> j \<and> int j < cnt then src ! (off + j) else dst ! j)"
proof (induction dst src off cnt i rule: copy_from.induct)
  case (1 dst src off cnt i)
  show ?case
  proof (cases "int i < cnt")
    case True
    have "copy_from dst src off cnt i ! j
        = copy_from (dst[i := src ! (off + i)]) src off cnt (i + 1) ! j"
      using True by (subst copy_from.simps) simp
    also have "\<dots> = (if i + 1 \<le> j \<and> int j < cnt then src ! (off + j)
                     else (dst[i := src ! (off + i)]) ! j)"
    proof (rule 1(1))
      show "int i < cnt" by (rule True)
      show "j < length (dst[i := src ! (off + i)])" using 1(2) by simp
    qed
    also have "\<dots> = (if i \<le> j \<and> int j < cnt then src ! (off + j) else dst ! j)"
    proof (cases "j = i")
      case True
      then show ?thesis using 1(2) \<open>int i < cnt\<close> by simp
    next
      case False
      then show ?thesis by auto
    qed
    finally show ?thesis .
  next
    case False
    then show ?thesis by (subst copy_from.simps) auto
  qed
qed

lemma take_copy_from:
  assumes "c \<le> length dst" "off + c \<le> length src"
  shows "take c (copy_from dst src off (int c) 0) = take c (drop off src)"
proof (rule nth_equalityI)
  show "length (take c (copy_from dst src off (int c) 0)) = length (take c (drop off src))"
    using assms by simp
next
  fix j assume "j < length (take c (copy_from dst src off (int c) 0))"
  then have "j < c" by simp
  then show "take c (copy_from dst src off (int c) 0) ! j = take c (drop off src) ! j"
    using assms by (simp add: nth_copy_from)
qed

lemma length_shift_left [simp]: "length (shift_left xs j n) = length xs"
proof (induction xs j n rule: shift_left.induct)
  case (1 xs j n)
  show ?case by (subst shift_left.simps) (use 1 in simp)
qed

lemma nth_shift_left:
  "n \<le> length xs \<Longrightarrow> i < length xs \<Longrightarrow>
   shift_left xs j n ! i = (if j \<le> i \<and> i + 1 < n then xs ! (i + 1) else xs ! i)"
proof (induction xs j n rule: shift_left.induct)
  case (1 xs j n)
  show ?case
  proof (cases "int j < int n - 1")
    case True
    let ?ys = "xs[j := xs ! (j + 1)]"
    have "shift_left xs j n ! i = shift_left ?ys (j + 1) n ! i"
      using True by (subst shift_left.simps) simp
    also have "\<dots> = (if j + 1 \<le> i \<and> i + 1 < n then ?ys ! (i + 1) else ?ys ! i)"
    proof (rule 1(1))
      show "int j < int n - 1" by (rule True)
      show "n \<le> length ?ys" using 1(2) by simp
      show "i < length ?ys" using 1(3) by simp
    qed
    also have "\<dots> = (if j \<le> i \<and> i + 1 < n then xs ! (i + 1) else xs ! i)"
      using 1(2,3) True by (auto simp: nth_list_update)
    finally show ?thesis .
  next
    case False
    then show ?thesis by (subst shift_left.simps) auto
  qed
qed

section \<open>The search loops\<close>

lemma lower_index_bounds: "i \<le> n \<Longrightarrow> i \<le> lower_index n ks key i \<and> lower_index n ks key i \<le> n"
proof (induction n ks key i rule: lower_index.induct)
  case (1 n ks key i)
  show ?case by (subst (1 2) lower_index.simps) (use 1 in auto)
qed

lemma lower_index_before:
  "i \<le> j \<Longrightarrow> j < lower_index n ks key i \<Longrightarrow> ks ! j < key"
proof (induction n ks key i rule: lower_index.induct)
  case (1 n ks key i)
  from 1(3) have run: "i < n \<and> ks ! i < key"
    by (subst (asm) lower_index.simps) (use 1(2) in \<open>auto split: if_splits\<close>)
  then have eq: "lower_index n ks key i = lower_index n ks key (i + 1)"
    by (subst lower_index.simps) simp
  show ?case
  proof (cases "j = i")
    case True
    then show ?thesis using run by simp
  next
    case False
    with 1(2) have "i + 1 \<le> j" by simp
    then show ?thesis using 1(1) run 1(3) eq by simp
  qed
qed

lemma lower_index_at:
  "lower_index n ks key i < n \<Longrightarrow> key \<le> ks ! lower_index n ks key i"
proof (induction n ks key i rule: lower_index.induct)
  case (1 n ks key i)
  show ?case
  proof (cases "i < n \<and> ks ! i < key")
    case True
    then have eq: "lower_index n ks key i = lower_index n ks key (i + 1)"
      by (subst lower_index.simps) simp
    then show ?thesis using 1 True by simp
  next
    case False
    then have eq: "lower_index n ks key i = i"
      by (subst lower_index.simps) auto
    then show ?thesis using 1(2) False by auto
  qed
qed

lemma upper_index_bounds: "i \<le> n \<Longrightarrow> i \<le> upper_index n ks key i \<and> upper_index n ks key i \<le> n"
proof (induction n ks key i rule: upper_index.induct)
  case (1 n ks key i)
  show ?case by (subst (1 2) upper_index.simps) (use 1 in auto)
qed

section \<open>Insertion keeps the shape\<close>

lemma length_uninit [simp]:
  "length (uninit_keys M L p) = M" "length (uninit_vals M L p) = M"
  "length (uninit_children M :: ('k, 'v) Node list) = M + 1"
  by (simp_all add: uninit_keys_def uninit_vals_def uninit_children_def)

lemma split_leaf_inv:
  assumes M: "2 \<le> M" "M < 65536"
    and len: "length ks = M" "length vs = M"
    and res: "split_leaf M L g M ks vs = Inr (l, r, med, g')"
  shows "node_inv M 0 l \<and> node_inv M 0 r"
proof -
  from res obtain p where
    l: "l = Leaf (u16 (int (M div 2))) ks vs" and
    r: "r = Leaf (u16 (int M - int (M div 2)))
              (copy_from (uninit_keys M L p) ks (M div 2) (int M - int (M div 2)) 0)
              (copy_from (uninit_vals M L p) vs (M div 2) (int M - int (M div 2)) 0)"
    by (auto simp: split_leaf_def Let_def split: sum.splits prod.splits)
  have half: "M div 2 < M" "0 < M div 2" "M div 2 < 65536" using M by auto
  have "u16 (int M - int (M div 2)) = M - M div 2"
    using M by (intro u16_int_diff) auto
  moreover have "M - M div 2 < M" using half by simp
  ultimately show ?thesis using l r len half by simp
qed

lemma split_internal_inv:
  assumes M: "2 \<le> M" "M < 65536"
    and h: "0 < h"
    and len: "length ks = M" "length cs = M + 1"
    and kids: "\<forall>c \<in> set cs. node_inv M (h - 1) c"
    and res: "split_internal M L g M ks cs = Inr (l, r, med, g')"
  shows "node_inv M h l \<and> node_inv M h r"
proof -
  let ?mid = "M div 2"
  let ?cnt = "int M - (int ?mid + 1)"
  from res obtain p where
    l: "l = Internal (u16 (int ?mid)) ks cs" and
    r: "r = Internal (u16 ?cnt)
              (copy_from (uninit_keys M L p) ks (?mid + 1) ?cnt 0)
              (copy_from (uninit_children M) cs (?mid + 1) (?cnt + 1) 0)"
    by (auto simp: split_internal_def Let_def split: sum.splits prod.splits)
  have half: "?mid < M" "0 < ?mid" "?mid < 65536" using M by auto
  have cnt: "?cnt = int (M - Suc ?mid)" using half by simp
  have cnt1: "?cnt + 1 = int (M - ?mid)" using half by simp
  have u: "u16 ?cnt = M - Suc ?mid"
  proof -
    have "u16 (int (M - Suc ?mid)) = M - Suc ?mid" using M by (intro u16_int) simp
    then show ?thesis by (simp only: cnt)
  qed
  have left: "node_inv M h l"
    using l h len half kids by (auto dest: in_set_takeD)
  have "take (M - ?mid) (copy_from (uninit_children M) cs (?mid + 1) (int (M - ?mid)) 0)
      = take (M - ?mid) (drop (?mid + 1) cs)"
    using len half by (intro take_copy_from) auto
  then have live: "set (take (Suc (M - Suc ?mid))
      (copy_from (uninit_children M) cs (?mid + 1) (?cnt + 1) 0)) \<subseteq> set cs"
    unfolding cnt1 using half
    by (metis Suc_diff_Suc in_set_dropD in_set_takeD subsetI)
  have "node_inv M h r"
    unfolding r u using h len half kids live by auto
  with left show ?thesis by simp
qed

lemma insert_leaf_inv:
  assumes M: "2 \<le> M" "M < 65536"
    and inv: "n < M" "length ks = M" "length vs = M"
    and res: "insert_leaf M L g n ks vs key val = Inr (node, r, g')"
  shows "node_inv M 0 node \<and> (\<forall>sib med. r = Some (sib, med) \<longrightarrow> node_inv M 0 sib)"
proof -
  let ?i = "lower_index n ks key 0"
  let ?ks = "(shift_right ks n ?i)[?i := key]"
  let ?vs = "(shift_right vs n ?i)[?i := val]"
  have n': "u16 (int n + 1) = Suc n" using inv(1) M by simp
  show ?thesis
  proof (cases "?i > 0 \<and> ks ! (?i - 1) = key")
    case True
    with res have "node = Leaf n ks (vs[?i - 1 := val])" "r = None"
      by (auto simp: insert_leaf_def Let_def)
    then show ?thesis using inv by simp
  next
    case False
    show ?thesis
    proof (cases "Suc n \<ge> M")
      case full: True
      then have eq: "Suc n = M" using inv(1) by simp
      from res False inv(1) full obtain med where
        sp: "split_leaf M L g M ?ks ?vs = Inr (node, the (map_option fst r), med, g')"
          and r: "r = Some (the (map_option fst r), med)"
        by (auto simp: insert_leaf_def Let_def n' eq split: sum.splits prod.splits)
      from split_leaf_inv [OF M _ _ sp] inv r show ?thesis
        by auto
    next
      case notfull: False
      with res False inv(1) have "node = Leaf (Suc n) ?ks ?vs" "r = None"
        by (auto simp: insert_leaf_def Let_def n')
      then show ?thesis using inv notfull by simp
    qed
  qed
qed

lemma insert_internal_inv:
  assumes M: "2 \<le> M" "M < 65536"
    and h: "0 < h"
    and inv: "n < M" "length ks = M" "length cs = M + 1"
    and kids: "\<forall>c \<in> set (take (n + 1) cs). node_inv M (h - 1) c"
    and i: "i \<le> n"
    and sib: "node_inv M (h - 1) child_sibling"
    and res: "insert_internal M L g n ks cs i child_sibling child_median = Inr (node, r, g')"
  shows "node_inv M h node \<and> (\<forall>sib med. r = Some (sib, med) \<longrightarrow> node_inv M h sib)"
proof -
  let ?ks = "(shift_right ks n i)[i := child_median]"
  let ?cs = "(shift_right cs (n + 1) (i + 1))[i + 1 := child_sibling]"
  have n': "u16 (int n + 1) = Suc n" using inv(1) M by simp
  have "take (Suc (n + 1)) ?cs
      = take (i + 1) cs @ child_sibling # drop (i + 1) (take (n + 1) cs)"
    using i inv by (intro take_shift_right_update) auto
  moreover have "set (take (i + 1) cs) \<subseteq> set (take (n + 1) cs)"
    using i by (intro set_take_subset_set_take) simp
  ultimately have "set (take (Suc (Suc n)) ?cs) \<subseteq> insert child_sibling (set (take (n + 1) cs))"
    by (auto dest: in_set_dropD)
  with kids sib have live: "\<forall>c \<in> set (take (Suc (Suc n)) ?cs). node_inv M (h - 1) c"
    by auto
  show ?thesis
  proof (cases "Suc n \<ge> M")
    case full: True
    then have eq: "Suc n = M" using inv(1) by simp
    have all: "\<forall>c \<in> set ?cs. node_inv M (h - 1) c"
    proof -
      have "take (Suc (Suc n)) ?cs = ?cs" using inv eq by simp
      with live show ?thesis by simp
    qed
    from res inv(1) full obtain med where
      sp: "split_internal M L g M ?ks ?cs = Inr (node, the (map_option fst r), med, g')"
        and r: "r = Some (the (map_option fst r), med)"
      by (auto simp: insert_internal_def Let_def n' eq split: sum.splits prod.splits)
    from split_internal_inv [OF M h _ _ all sp] inv r show ?thesis
      by auto
  next
    case notfull: False
    with res inv(1) have "node = Internal (Suc n) ?ks ?cs" "r = None"
      by (auto simp: insert_internal_def Let_def n')
    then show ?thesis using inv notfull h live by simp
  qed
qed

lemma insert_recursive_inv:
  "2 \<le> M \<Longrightarrow> M < 65536 \<Longrightarrow> node_inv M h node \<Longrightarrow>
   insert_recursive M L g node key val = Inr (node', r, g') \<Longrightarrow>
   node_inv M h node' \<and> (\<forall>sib med. r = Some (sib, med) \<longrightarrow> node_inv M h sib)"
proof (induction M L g node key val arbitrary: h node' r g' rule: insert_recursive.induct)
  case (1 M L g n ks vs key val)
  from 1(3) have "h = 0" "n < M" "length ks = M" "length vs = M" by simp_all
  with insert_leaf_inv [OF 1(1,2), of n ks vs L g key val node' r g'] 1(4)
  show ?case by simp
next
  case (2 M L g n ks cs key val)
  let ?i = "lower_index n ks key 0"
  from 2(4) have h: "0 < h" and n: "n < M" and len: "length ks = M" "length cs = M + 1"
    and kids: "\<forall>c \<in> set (take (n + 1) cs). node_inv M (h - 1) c"
    by simp_all
  have i: "?i \<le> n" using lower_index_bounds [of 0 n ks key] by simp
  then have ilen: "?i < length cs" using n len by simp
  have "cs ! ?i \<in> set (take (n + 1) cs)"
    using i ilen by (metis Suc_eq_plus1 in_set_conv_nth le_imp_less_Suc length_take min_less_iff_conj nth_take)
  with kids have child: "node_inv M (h - 1) (cs ! ?i)" by simp
  from 2(5) ilen obtain child' rc gc where
    rec: "insert_recursive M L g (cs ! ?i) key val = Inr (child', rc, gc)"
    by (auto simp: Let_def split: sum.splits)
  have IH: "node_inv M (h - 1) child'
      \<and> (\<forall>sib med. rc = Some (sib, med) \<longrightarrow> node_inv M (h - 1) sib)"
    using 2(1) [OF refl _ 2(2,3) child rec] ilen by simp
  have kids': "\<forall>c \<in> set (take (n + 1) (cs[?i := child'])). node_inv M (h - 1) c"
  proof
    fix c assume "c \<in> set (take (n + 1) (cs[?i := child']))"
    then have "c \<in> set ((take (n + 1) cs)[?i := child'])" by (simp add: take_update_swap)
    then have "c \<in> insert child' (set (take (n + 1) cs))"
      using set_update_subset_insert by fastforce
    with kids IH show "node_inv M (h - 1) c" by auto
  qed
  show ?case
  proof (cases rc)
    case None
    with 2(5) ilen rec have "node' = Internal n ks (cs[?i := child'])" "r = None"
      by (auto simp: Let_def)
    then show ?thesis using h n len kids' by simp
  next
    case (Some sm)
    obtain sib med where sm: "sm = (sib, med)" by (cases sm)
    with Some 2(5) ilen rec have
      "insert_internal M L gc n ks (cs[?i := child']) ?i sib med = Inr (node', r, g')"
      by (auto simp: Let_def)
    moreover have "node_inv M (h - 1) sib" using IH Some sm by simp
    ultimately show ?thesis
      using insert_internal_inv [OF 2(2,3) h n len(1) _ kids' i] len(2) by simp
  qed
next
  case (3 M L g key val)
  then show ?case by simp
qed

lemma insert_bpt_inv:
  assumes M: "2 \<le> M" "M < 65536"
    and inv: "node_inv M h (fst t)"
    and res: "insert_bpt M L t key val = Inr t'"
  shows "node_inv M h (fst t') \<or> node_inv M (Suc h) (fst t')"
proof -
  from res obtain root r g' where
    rec: "insert_recursive M L (snd t) (fst t) key val = Inr (root, r, g')"
    by (auto simp: insert_bpt_def split: sum.splits)
  note IH = insert_recursive_inv [OF M inv rec]
  show ?thesis
  proof (cases r)
    case None
    with res rec have "fst t' = root" by (auto simp: insert_bpt_def)
    with IH show ?thesis by simp
  next
    case (Some sm)
    obtain sib med where sm: "sm = (sib, med)" by (cases sm)
    with Some res rec obtain p where
      t': "fst t' = Internal (u16 1) ((uninit_keys M L p)[0 := med])
             ((uninit_children M)[0 := root, 1 := sib])"
      by (auto simp: insert_bpt_def split: sum.splits)
    have "take 2 ((uninit_children M :: ('a, 'b) Node list)[0 := root, 1 := sib]) = [root, sib]"
      using M by (simp add: uninit_children_def take_Suc_conv_app_nth numeral_2_eq_2)
    moreover have "u16 1 = 1" by (simp add: u16_def)
    ultimately have "node_inv M (Suc h) (fst t')"
      using M IH Some sm unfolding t' by (simp add: numeral_2_eq_2)
    then show ?thesis ..
  qed
qed

lemma BPlusTree_new_inv:
  "0 < M \<Longrightarrow> BPlusTree_new M L g = Inr t \<Longrightarrow> node_inv M 0 (fst t)"
  by (auto simp: BPlusTree_new_def split: sum.splits)

lemma insert_all_inv:
  "2 \<le> M \<Longrightarrow> M < 65536 \<Longrightarrow> node_inv M h (fst t) \<Longrightarrow>
   insert_all M L t kvs = Inr t' \<Longrightarrow> \<exists>h'. node_inv M h' (fst t')"
proof (induction kvs arbitrary: t h)
  case Nil
  then show ?case by auto
next
  case (Cons kv kvs)
  obtain k v where kv: "kv = (k, v)" by (cases kv)
  with Cons.prems(4) obtain t1 where
    step: "insert_bpt M L t k v = Inr t1" and rest: "insert_all M L t1 kvs = Inr t'"
    by (auto split: sum.splits)
  from insert_bpt_inv [OF Cons.prems(1,2,3) step]
  obtain h1 where "node_inv M h1 (fst t1)" by blast
  from Cons.IH [OF Cons.prems(1,2) this rest] show ?case .
qed

lemma build_inv:
  assumes "2 \<le> M" "M < 65536" "build M L g kvs = Inr t"
  shows "\<exists>h. node_inv M h (fst t)"
proof -
  from assms(3) obtain t0 where
    new: "BPlusTree_new M L g = Inr t0" and ins: "insert_all M L t0 kvs = Inr t"
    by (auto simp: build_def split: sum.splits)
  from BPlusTree_new_inv [OF _ new] assms(1) have "node_inv M 0 (fst t0)" by simp
  from insert_all_inv [OF assms(1,2) this ins] show ?thesis .
qed

lemma node_inv_leaf_depths: "node_inv M h t \<Longrightarrow> set (leaf_depths t) \<subseteq> {h}"
proof (induction t arbitrary: h)
  case (Leaf n ks vs)
  then show ?case by simp
next
  case (Internal n ks cs)
  have "set (leaf_depths c) \<subseteq> {h - 1}" if "c \<in> set (take (n + 1) cs)" for c
  proof -
    from that have "c \<in> set cs" by (rule in_set_takeD)
    moreover from that Internal.prems have "node_inv M (h - 1) c" by simp
    ultimately show ?thesis by (rule Internal.IH)
  qed
  moreover from Internal.prems have "0 < h" by simp
  ultimately show ?case by fastforce
next
  case Dangling
  then show ?case by simp
qed

lemma node_inv_balanced: "node_inv M h t \<Longrightarrow> balanced t"
  using node_inv_leaf_depths [of M h t] unfolding balanced_def by blast

section \<open>The overwrite test of insert_recursive\<close>

lemma overwrite_test_fails:
  "\<not> (0 < lower_index n ks key 0 \<and> ks ! (lower_index n ks key 0 - 1) = key)"
proof
  assume a: "0 < lower_index n ks key 0 \<and> ks ! (lower_index n ks key 0 - 1) = key"
  then have "lower_index n ks key 0 - 1 < lower_index n ks key 0" by simp
  then have "ks ! (lower_index n ks key 0 - 1) < key"
    by (intro lower_index_before [of 0]) simp_all
  with a show False by simp
qed

lemma insert_leaf_room:
  assumes "Suc n < M" "M < 65536"
  shows "insert_leaf M L g n ks vs key val
    = Inr (Leaf (Suc n) ((shift_right ks n (lower_index n ks key 0))[lower_index n ks key 0 := key])
                        ((shift_right vs n (lower_index n ks key 0))[lower_index n ks key 0 := val]),
           None, g)"
proof -
  have "u16 (int n + 1) = Suc n" using assms by simp
  then show ?thesis
    unfolding insert_leaf_def Let_def if_not_P [OF overwrite_test_fails]
    using assms by simp
qed

lemma insert_leaf_full:
  assumes "Suc n = M" "M < 65536"
  shows "insert_leaf M L g n ks vs key val
    = (case split_leaf M L g M
              ((shift_right ks n (lower_index n ks key 0))[lower_index n ks key 0 := key])
              ((shift_right vs n (lower_index n ks key 0))[lower_index n ks key 0 := val]) of
         Inl e \<Rightarrow> Inl e
       | Inr (node, new_sibling, median, g') \<Rightarrow> Inr (node, Some (new_sibling, median), g'))"
proof -
  have "u16 (int n + 1) = M" using assms by auto
  then show ?thesis
    unfolding insert_leaf_def Let_def if_not_P [OF overwrite_test_fails]
    using assms by auto
qed

lemma insert_leaf_splits_iff:
  assumes "n < M" "M < 65536" "insert_leaf M L g n ks vs key val = Inr (node, r, g')"
  shows "r \<noteq> None \<longleftrightarrow> Suc n = M"
proof (cases "Suc n = M")
  case True
  with assms(3) show ?thesis
    by (auto simp: insert_leaf_full [OF True assms(2)] split: sum.splits prod.splits)
next
  case False
  with assms(1) have room: "Suc n < M" by simp
  show ?thesis
    using assms(3) False by (simp add: insert_leaf_room [OF room assms(2)])
qed

lemma insert_internal_splits_iff:
  assumes "n < M" "M < 65536"
    "insert_internal M L g n ks cs i child_sibling child_median = Inr (node, r, g')"
  shows "r \<noteq> None \<longleftrightarrow> Suc n = M"
proof -
  have "u16 (int n + 1) = Suc n" using assms by simp
  with assms show ?thesis
    by (auto simp: insert_internal_def Let_def split: sum.splits prod.splits if_splits)
qed

lemma insert_all_leaf_room:
  "n + length kvs < M \<Longrightarrow> M < 65536 \<Longrightarrow>
   \<exists>ks' vs'. insert_all M L (Leaf n ks vs, g) kvs = Inr (Leaf (n + length kvs) ks' vs', g)
     \<and> length ks' = length ks \<and> length vs' = length vs"
proof (induction kvs arbitrary: n ks vs)
  case Nil
  then show ?case by simp
next
  case (Cons kv kvs)
  obtain k v where kv: "kv = (k, v)" by (cases kv)
  let ?ks = "(shift_right ks n (lower_index n ks k 0))[lower_index n ks k 0 := k]"
  let ?vs = "(shift_right vs n (lower_index n ks k 0))[lower_index n ks k 0 := v]"
  from Cons.prems have room: "Suc n < M" by simp
  have step: "insert_bpt M L (Leaf n ks vs, g) k v = Inr (Leaf (Suc n) ?ks ?vs, g)"
    by (simp add: insert_bpt_def insert_leaf_room [OF room Cons.prems(2)])
  from Cons.prems have "Suc n + length kvs < M" by simp
  from Cons.IH [OF this Cons.prems(2), of ?ks ?vs]
  obtain ks' vs' where
    "insert_all M L (Leaf (Suc n) ?ks ?vs, g) kvs = Inr (Leaf (Suc n + length kvs) ks' vs', g)"
    "length ks' = length ?ks" "length vs' = length ?vs"
    by blast
  then show ?case using step kv by simp
qed

section \<open>No insertion is undefined\<close>

lemma operator_new_defined: "operator_new L g \<noteq> Inl Undefined"
  by (auto simp: operator_new_def allocate_def Let_def split: option.splits)

lemma operator_new_errors:
  "operator_new L g = Inl e \<Longrightarrow> e = OutOfArena \<or> e = ArenaUnavailable"
  by (auto simp: operator_new_def allocate_def Let_def split: option.splits if_splits)

lemma split_leaf_errors:
  "split_leaf M L g n ks vs = Inl e \<Longrightarrow> e = OutOfArena \<or> e = ArenaUnavailable"
  by (auto simp: split_leaf_def Let_def split: sum.splits prod.splits dest: operator_new_errors)

lemma split_internal_errors:
  "split_internal M L g n ks cs = Inl e \<Longrightarrow> e = OutOfArena \<or> e = ArenaUnavailable"
  by (auto simp: split_internal_def Let_def split: sum.splits prod.splits dest: operator_new_errors)

lemma insert_leaf_errors:
  assumes "n < M" "insert_leaf M L g n ks vs key val = Inl e"
  shows "e = OutOfArena \<or> e = ArenaUnavailable"
  using assms
  by (auto simp: insert_leaf_def Let_def split: sum.splits prod.splits if_splits
      dest: split_leaf_errors)

lemma insert_internal_errors:
  assumes "n < M" "insert_internal M L g n ks cs i s m = Inl e"
  shows "e = OutOfArena \<or> e = ArenaUnavailable"
  using assms
  by (auto simp: insert_internal_def Let_def split: sum.splits prod.splits if_splits
      dest: split_internal_errors)

lemma insert_recursive_errors:
  "2 \<le> M \<Longrightarrow> M < 65536 \<Longrightarrow> node_inv M h node \<Longrightarrow>
   insert_recursive M L g node key val = Inl e \<Longrightarrow> e = OutOfArena \<or> e = ArenaUnavailable"
proof (induction M L g node key val arbitrary: h e rule: insert_recursive.induct)
  case (1 M L g n ks vs key val)
  then show ?case by (auto dest: insert_leaf_errors)
next
  case (2 M L g n ks cs key val)
  let ?i = "lower_index n ks key 0"
  from 2(4) have h: "0 < h" and n: "n < M" and len: "length ks = M" "length cs = M + 1"
    and kids: "\<forall>c \<in> set (take (n + 1) cs). node_inv M (h - 1) c"
    by simp_all
  have i: "?i \<le> n" using lower_index_bounds [of 0 n ks key] by simp
  then have ilen: "?i < length cs" using n len by simp
  have "cs ! ?i \<in> set (take (n + 1) cs)"
    using i ilen by (metis Suc_eq_plus1 in_set_conv_nth le_imp_less_Suc length_take min_less_iff_conj nth_take)
  with kids have child: "node_inv M (h - 1) (cs ! ?i)" by simp
  show ?case
  proof (cases "insert_recursive M L g (cs ! ?i) key val")
    case (Inl e')
    with 2(5) ilen have "e = e'" by (simp add: Let_def)
    with 2(1) [OF refl _ 2(2,3) child Inl] ilen show ?thesis by simp
  next
    case (Inr res)
    obtain child' rc gc where res: "res = (child', rc, gc)" by (cases res)
    show ?thesis
    proof (cases rc)
      case None
      with 2(5) ilen Inr res show ?thesis by (simp add: Let_def)
    next
      case (Some sm)
      obtain sib med where "sm = (sib, med)" by (cases sm)
      with Some 2(5) ilen Inr res have
        "insert_internal M L gc n ks (cs[?i := child']) ?i sib med = Inl e"
        by (simp add: Let_def)
      from insert_internal_errors [OF n this] show ?thesis .
    qed
  qed
next
  case (3 M L g key val)
  then show ?case by simp
qed

lemma insert_bpt_errors:
  assumes "2 \<le> M" "M < 65536" "node_inv M h (fst t)" "insert_bpt M L t key val = Inl e"
  shows "e = OutOfArena \<or> e = ArenaUnavailable"
proof (cases "insert_recursive M L (snd t) (fst t) key val")
  case (Inl e')
  with assms(4) have "e = e'" by (simp add: insert_bpt_def)
  with insert_recursive_errors [OF assms(1-3) Inl] show ?thesis by simp
next
  case (Inr res)
  with assms(4) show ?thesis
    by (auto simp: insert_bpt_def split: sum.splits prod.splits option.splits
        dest: operator_new_errors)
qed

lemma insert_bpt_full_leaf:
  assumes M: "2 \<le> M" "M < 65536"
    and full: "Suc n = M"
    and res: "insert_bpt M L (Leaf n ks vs, g0) k v = Inr (t, g')"
  shows "\<exists>g1 p1 p2 sks cs lks lvs rks rvs.
           operator_new L g0 = Inr (p1, g1) \<and> operator_new L g1 = Inr (p2, g')
         \<and> t = Internal 1 sks cs
         \<and> take 2 cs = [Leaf (M div 2) lks lvs, Leaf (M - M div 2) rks rvs]
         \<and> node_count t = 3"
proof -
  let ?i = "lower_index n ks k 0"
  let ?ks = "(shift_right ks n ?i)[?i := k]"
  let ?vs = "(shift_right vs n ?i)[?i := v]"
  have half: "M div 2 < 65536" using M by simp
  have right: "u16 (int M - int (M div 2)) = M - M div 2"
    using M by (intro u16_int_diff) auto
  note leaf = insert_leaf_full [OF full M(2), of L g0 ks vs k v]
  from res obtain p1 g1 where new1: "operator_new L g0 = Inr (p1, g1)"
    by (cases "operator_new L g0")
       (auto simp: insert_bpt_def leaf split_leaf_def Let_def split: sum.splits)
  let ?l = "Leaf (M div 2) ?ks ?vs :: ('a, 'b) Node"
  let ?rks = "copy_from (uninit_keys M L p1) ?ks (M div 2) (int M - int (M div 2)) 0"
  let ?rvs = "copy_from (uninit_vals M L p1) ?vs (M div 2) (int M - int (M div 2)) 0"
  let ?r = "Leaf (M - M div 2) ?rks ?rvs"
  have sp: "split_leaf M L g0 M ?ks ?vs = Inr (?l, ?r, ?rks ! 0, g1)"
    using new1 half right by (simp add: split_leaf_def Let_def)
  have rec: "insert_recursive M L g0 (Leaf n ks vs) k v = Inr (?l, Some (?r, ?rks ! 0), g1)"
    by (simp add: leaf sp)
  from res rec obtain p2 where new2: "operator_new L g1 = Inr (p2, g')"
    and t: "t = Internal (u16 1) ((uninit_keys M L p2)[0 := ?rks ! 0])
                 ((uninit_children M)[0 := ?l, 1 := ?r])"
    by (cases "operator_new L g1") (auto simp: insert_bpt_def)
  have one: "u16 1 = 1" by (simp add: u16_def)
  have two: "take 2 ((uninit_children M :: ('a, 'b) Node list)[0 := ?l, 1 := ?r]) = [?l, ?r]"
    using M by (simp add: uninit_children_def take_Suc_conv_app_nth numeral_2_eq_2)
  then have "node_count t = 3"
    unfolding t one by (simp add: numeral_2_eq_2)
  with new1 new2 t one two show ?thesis by blast
qed

lemma insert_all_reachable:
  assumes M: "2 \<le> M" "M < 65536"
    and new: "BPlusTree_new M L g = Inr t0"
    and ins: "insert_all M L t0 kvs = Inr t"
  shows "\<exists>h. node_inv M h (fst t)"
proof -
  from BPlusTree_new_inv [OF _ new] M(1) have "node_inv M 0 (fst t0)" by simp
  from insert_all_inv [OF M this ins] show ?thesis .
qed

section \<open>The linear searches\<close>

lemma upper_index_before:
  "i \<le> j \<Longrightarrow> j < upper_index n ks key i \<Longrightarrow> ks ! j \<le> key"
proof (induction n ks key i rule: upper_index.induct)
  case (1 n ks key i)
  from 1(3) have run: "i < n \<and> ks ! i \<le> key"
    by (subst (asm) upper_index.simps) (use 1(2) in \<open>auto split: if_splits\<close>)
  then have eq: "upper_index n ks key i = upper_index n ks key (i + 1)"
    by (subst upper_index.simps) simp
  show ?case
  proof (cases "j = i")
    case True
    then show ?thesis using run by simp
  next
    case False
    with 1(2) have "i + 1 \<le> j" by simp
    then show ?thesis using 1(1) run 1(3) eq by simp
  qed
qed

lemma upper_index_at:
  "upper_index n ks key i < n \<Longrightarrow> key < ks ! upper_index n ks key i"
proof (induction n ks key i rule: upper_index.induct)
  case (1 n ks key i)
  show ?case
  proof (cases "i < n \<and> ks ! i \<le> key")
    case True
    then have eq: "upper_index n ks key i = upper_index n ks key (i + 1)"
      by (subst upper_index.simps) simp
    then show ?thesis using 1 True by simp
  next
    case False
    then have eq: "upper_index n ks key i = i"
      by (subst upper_index.simps) auto
    then show ?thesis using 1(2) False by auto
  qed
qed

text \<open>An index with the three properties of the loop's result is the loop's result.\<close>

lemma upper_index_unique:
  assumes "i \<le> r" "r \<le> n"
    and before: "\<forall>j. i \<le> j \<and> j < r \<longrightarrow> ks ! j \<le> key"
    and at: "r < n \<longrightarrow> key < ks ! r"
  shows "upper_index n ks key i = r"
proof -
  let ?u = "upper_index n ks key i"
  have b: "i \<le> ?u" "?u \<le> n" using upper_index_bounds [of i n ks key] assms(1,2) by simp_all
  show ?thesis
  proof (rule ccontr)
    assume "?u \<noteq> r"
    then consider "?u < r" | "r < ?u" by linarith
    then show False
    proof cases
      case 1
      then have "?u < n" using assms(2) by simp
      then have "key < ks ! ?u" by (rule upper_index_at)
      moreover have "ks ! ?u \<le> key" using before b(1) 1 by simp
      ultimately show False by simp
    next
      case 2
      then have "r < n" using b(2) by simp
      with at have "key < ks ! r" by simp
      moreover have "ks ! r \<le> key" using upper_index_before [of i r n ks key] assms(1) 2 by simp
      ultimately show False by simp
    qed
  qed
qed

lemma descent_index_upper_index:
  assumes "n \<le> length ks"
  shows "descent_index n ks key = upper_index n ks key 0"
proof -
  let ?P = "\<lambda>s. s \<le> key"
  let ?xs = "take n ks"
  let ?d = "length (takeWhile ?P ?xs)"
  have len: "length ?xs = n" using assms by simp
  have d: "?d \<le> n" using length_takeWhile_le [of ?P ?xs] len by simp
  have before: "\<forall>j. 0 \<le> j \<and> j < ?d \<longrightarrow> ks ! j \<le> key"
  proof (intro allI impI)
    fix j assume j: "0 \<le> j \<and> j < ?d"
    then have "?P (takeWhile ?P ?xs ! j)"
      by (meson nth_mem set_takeWhileD)
    moreover have "takeWhile ?P ?xs ! j = ?xs ! j" using j by (simp add: takeWhile_nth)
    moreover have "?xs ! j = ks ! j" using j d by simp
    ultimately show "ks ! j \<le> key" by simp
  qed
  have at: "?d < n \<longrightarrow> key < ks ! ?d"
  proof
    assume dn: "?d < n"
    then have "\<not> ?P (?xs ! ?d)" using len by (intro nth_length_takeWhile) simp
    moreover have "?xs ! ?d = ks ! ?d" using dn by simp
    ultimately show "key < ks ! ?d" by simp
  qed
  have "upper_index n ks key 0 = ?d"
    by (rule upper_index_unique [OF _ d before at]) simp
  then show ?thesis by (simp add: descent_index_def)
qed

lemma linear_leaf_Some:
  "linear_leaf n ks key i = Some j \<Longrightarrow>
   i \<le> j \<and> j < n \<and> ks ! j = key \<and> (\<forall>l. i \<le> l \<and> l < j \<longrightarrow> ks ! l \<noteq> key)"
proof (induction n ks key i rule: linear_leaf.induct)
  case (1 n ks key i)
  from 1(2) have lt: "i < n"
    by (subst (asm) linear_leaf.simps) (auto split: if_splits)
  show ?case
  proof (cases "ks ! i = key")
    case True
    with lt 1(2) have "j = i" by (subst (asm) linear_leaf.simps) simp
    with lt True show ?thesis by auto
  next
    case False
    with lt 1(2) have "linear_leaf n ks key (i + 1) = Some j"
      by (subst (asm) linear_leaf.simps) simp
    from 1(1) [OF lt False this]
    have IH: "i + 1 \<le> j \<and> j < n \<and> ks ! j = key \<and> (\<forall>l. i + 1 \<le> l \<and> l < j \<longrightarrow> ks ! l \<noteq> key)" .
    have "ks ! l \<noteq> key" if "i \<le> l \<and> l < j" for l
    proof (cases "l = i")
      case True
      then show ?thesis using False by simp
    next
      case False
      with that have "i + 1 \<le> l \<and> l < j" by simp
      with IH show ?thesis by blast
    qed
    with IH show ?thesis by simp
  qed
qed

lemma linear_leaf_None:
  "linear_leaf n ks key i = None \<Longrightarrow> i \<le> l \<Longrightarrow> l < n \<Longrightarrow> ks ! l \<noteq> key"
proof (induction n ks key i rule: linear_leaf.induct)
  case (1 n ks key i)
  from 1(3,4) have lt: "i < n" by simp
  with 1(2) have ne: "ks ! i \<noteq> key"
    by (subst (asm) linear_leaf.simps) (auto split: if_splits)
  with lt 1(2) have rest: "linear_leaf n ks key (i + 1) = None"
    by (subst (asm) linear_leaf.simps) simp
  show ?case
  proof (cases "l = i")
    case True
    then show ?thesis using ne by simp
  next
    case False
    with 1(3) have "i + 1 \<le> l" by simp
    from 1(1) [OF lt ne rest this 1(4)] show ?thesis .
  qed
qed

text \<open>A result with the properties of the linear scan is the linear scan's result.\<close>

lemma linear_leaf_unique:
  assumes some: "\<forall>j. r = Some j \<longrightarrow> j < n \<and> ks ! j = key \<and> (\<forall>l < j. ks ! l \<noteq> key)"
    and none: "r = None \<longrightarrow> (\<forall>l < n. ks ! l \<noteq> key)"
  shows "linear_leaf n ks key 0 = r"
proof (cases "linear_leaf n ks key 0")
  case None
  note lin = linear_leaf_None [OF None]
  show ?thesis
  proof (cases r)
    case None
    then show ?thesis using \<open>linear_leaf n ks key 0 = None\<close> by simp
  next
    case (Some j)
    with some have "j < n" "ks ! j = key" by simp_all
    with lin [of j] show ?thesis by simp
  qed
next
  case (Some a)
  from linear_leaf_Some [OF Some]
  have a: "a < n" "ks ! a = key" "\<forall>l. l < a \<longrightarrow> ks ! l \<noteq> key" by simp_all
  show ?thesis
  proof (cases r)
    case None
    with none a show ?thesis by auto
  next
    case (Some j)
    with some have j: "j < n" "ks ! j = key" "\<forall>l < j. ks ! l \<noteq> key" by simp_all
    have "a = j"
    proof (rule ccontr)
      assume "a \<noteq> j"
      then consider "a < j" | "j < a" by linarith
      then show False using a j by cases auto
    qed
    with \<open>linear_leaf n ks key 0 = Some a\<close> Some show ?thesis by simp
  qed
qed

section \<open>The binary searches\<close>

lemma sorted_take_mono:
  assumes "sorted_wrt (<) (take n ks)" "n \<le> length ks" "a \<le> b" "b < n"
  shows "ks ! a \<le> (ks ! b :: 'k::linorder)"
proof (cases "a = b")
  case True
  then show ?thesis by simp
next
  case False
  with assms(3) have "a < b" by simp
  moreover have "b < length (take n ks)" using assms(2,4) by simp
  ultimately have "take n ks ! a < take n ks ! b"
    by (rule sorted_wrt_nth_less [OF assms(1)])
  moreover have "take n ks ! a = ks ! a" "take n ks ! b = ks ! b"
    using \<open>a < b\<close> assms(4) by simp_all
  ultimately show ?thesis by simp
qed

lemma binary_child_loop_spec:
  shows "\<forall>a b. a \<le> b \<and> b < n \<longrightarrow> ks ! a \<le> ks ! b \<Longrightarrow> 0 \<le> lo \<Longrightarrow> hi < int n \<Longrightarrow> lo \<le> hi + 1 \<Longrightarrow>
    (\<forall>j. int j < lo \<longrightarrow> ks ! j \<le> key) \<Longrightarrow>
    (\<forall>j. hi < int j \<and> j < n \<longrightarrow> key < ks ! j) \<Longrightarrow>
    \<exists>u. u \<le> n \<and> (\<forall>j<u. ks ! j \<le> key) \<and> (\<forall>j. u \<le> j \<and> j < n \<longrightarrow> key < ks ! j)
      \<and> binary_child_loop ks key lo hi i = (if int u - 1 = hi then i else int u, int u - 1)"
proof (induction ks key lo hi i rule: binary_child_loop.induct)
  case (1 ks key lo hi i)
  note mono = 1(3) and lo0 = 1(4) and hin = 1(5) and lohi = 1(6) and low0 = 1(7)
    and high0 = 1(8)
  have mono': "ks ! a \<le> ks ! b" if "a \<le> b" "b < n" for a b
    using mono that by simp
  show ?case
  proof (cases "lo \<le> hi")
    case False
    with lohi have lo: "lo = hi + 1" by simp
    let ?u = "nat lo"
    have u: "int ?u = lo" using lo0 by simp
    have "?u \<le> n" using hin lo by simp
    moreover have "\<forall>j < ?u. ks ! j \<le> key" using low0 u by auto
    moreover have "\<forall>j. ?u \<le> j \<and> j < n \<longrightarrow> key < ks ! j"
    proof (intro allI impI)
      fix j assume j: "?u \<le> j \<and> j < n"
      then have "hi < int j" using lo u by linarith
      with high0 j show "key < ks ! j" by simp
    qed
    moreover have "binary_child_loop ks key lo hi i = (i, hi)"
      using False by (subst binary_child_loop.simps) simp
    ultimately show ?thesis using lo u by (intro exI [of _ ?u]) simp
  next
    case True
    let ?mid = "lo + (hi - lo) div 2"
    have mid: "lo \<le> ?mid" "?mid \<le> hi" using True by auto
    then have m0: "0 \<le> ?mid" and mn: "nat ?mid < n" using lo0 hin by auto
    show ?thesis
    proof (cases "ks ! nat ?mid \<le> key")
      case le: True
      have eq: "binary_child_loop ks key lo hi i = binary_child_loop ks key (?mid + 1) hi i"
        using True le by (subst binary_child_loop.simps) (simp add: Let_def)
      have low: "\<forall>j. int j < ?mid + 1 \<longrightarrow> ks ! j \<le> key"
      proof (intro allI impI)
        fix j assume "int j < ?mid + 1"
        then have "j \<le> nat ?mid" using m0 by linarith
        then have "ks ! j \<le> ks ! nat ?mid" using mn by (rule mono')
        with le show "ks ! j \<le> key" by simp
      qed
      from 1(1) [OF True refl le mono _ hin _ low high0] mid m0
      show ?thesis unfolding eq by simp
    next
      case gt: False
      have eq: "binary_child_loop ks key lo hi i = binary_child_loop ks key lo (?mid - 1) ?mid"
        using True gt by (subst binary_child_loop.simps) (simp add: Let_def)
      have high: "\<forall>j. ?mid - 1 < int j \<and> j < n \<longrightarrow> key < ks ! j"
      proof (intro allI impI)
        fix j assume j: "?mid - 1 < int j \<and> j < n"
        then have "nat ?mid \<le> j" by linarith
        then have "ks ! nat ?mid \<le> ks ! j" using j by (intro mono') simp_all
        with gt show "key < ks ! j" by simp
      qed
      have "?mid - 1 < int n" using mid hin by simp
      moreover have "lo \<le> ?mid - 1 + 1" using mid by simp
      ultimately obtain u where u: "u \<le> n" "\<forall>j<u. ks ! j \<le> key"
        "\<forall>j. u \<le> j \<and> j < n \<longrightarrow> key < ks ! j"
        "binary_child_loop ks key lo (?mid - 1) ?mid
           = (if int u - 1 = ?mid - 1 then ?mid else int u, int u - 1)"
        using 1(2) [OF True refl gt mono lo0 _ _ low0 high] by blast
      have "\<not> nat ?mid < u" using u(2) gt by auto
      then have um: "int u \<le> ?mid" using m0 by linarith
      then have "int u - 1 \<noteq> hi" using mid by simp
      moreover have "(if int u - 1 = ?mid - 1 then ?mid else int u) = int u" by simp
      ultimately have "binary_child_loop ks key lo hi i
          = (if int u - 1 = hi then i else int u, int u - 1)"
        unfolding eq u(4) by simp
      with u(1-3) show ?thesis by blast
    qed
  qed
qed

lemma binary_child_upper_index:
  assumes "sorted_wrt (<) (take n ks)" "n \<le> length ks" "0 < n"
  shows "binary_child n ks key = Inr (int (upper_index n ks key 0))"
proof -
  have mono: "\<forall>a b. a \<le> b \<and> b < n \<longrightarrow> ks ! a \<le> ks ! b"
    using sorted_take_mono [OF assms(1,2)] by blast
  obtain u where u: "u \<le> n" "\<forall>j<u. ks ! j \<le> key"
      "\<forall>j. u \<le> j \<and> j < n \<longrightarrow> key < ks ! j"
      "binary_child_loop ks key 0 (int n - 1) (int n - 1)
         = (if int u - 1 = int n - 1 then int n - 1 else int u, int u - 1)"
  proof -
    have low: "\<forall>j. int j < 0 \<longrightarrow> ks ! j \<le> key" by simp
    have high: "\<forall>j. int n - 1 < int j \<and> j < n \<longrightarrow> key < ks ! j" by auto
    from binary_child_loop_spec [where i = "int n - 1", OF mono _ _ _ low high] that
    show ?thesis by auto
  qed
  have up: "upper_index n ks key 0 = u"
  proof (rule upper_index_unique)
    show "0 \<le> u" by simp
    show "u \<le> n" by (rule u(1))
    show "\<forall>j. 0 \<le> j \<and> j < u \<longrightarrow> ks ! j \<le> key" using u(2) by simp
    show "u < n \<longrightarrow> key < ks ! u" using u(3) by simp
  qed
  define i' where "i' = (if int u - 1 = int n - 1 then int n - 1 else int u)"
  have res: "binary_child n ks key
      = (if i' = int u - 1
         then (if i' < 0 then Inl Undefined
               else if ks ! nat i' > key then Inr i' else Inr (i' + 1))
         else Inr i')"
    unfolding binary_child_def u(4) i'_def by simp
  show ?thesis
  proof (cases "u = n")
    case True
    then have i: "i' = int n - 1" by (simp add: i'_def)
    have "\<not> key < ks ! (n - 1)" using u(2) True assms(3) by (simp add: not_less)
    moreover have "nat (int n - 1) = n - 1" by simp
    ultimately show ?thesis
      unfolding res i up using True assms(3) by simp
  next
    case False
    then have "i' = int u" by (simp add: i'_def)
    then show ?thesis unfolding res up by simp
  qed
qed

lemma binary_leaf_loop_spec:
  shows "\<forall>a b. a \<le> b \<and> b < n \<longrightarrow> ks ! a \<le> ks ! b \<Longrightarrow> 0 \<le> lo \<Longrightarrow> hi < int n \<Longrightarrow> lo \<le> hi + 1 \<Longrightarrow>
    (\<forall>j. int j < lo \<longrightarrow> ks ! j < key) \<Longrightarrow>
    (\<forall>j. hi < int j \<and> j < n \<longrightarrow> key \<le> ks ! j) \<Longrightarrow>
    \<exists>u. u \<le> n \<and> (\<forall>j<u. ks ! j < key) \<and> (\<forall>j. u \<le> j \<and> j < n \<longrightarrow> key \<le> ks ! j)
      \<and> binary_leaf_loop ks key lo hi i = (if int u - 1 = hi then i else int u, int u - 1)"
proof (induction ks key lo hi i rule: binary_leaf_loop.induct)
  case (1 ks key lo hi i)
  note mono = 1(3) and lo0 = 1(4) and hin = 1(5) and lohi = 1(6) and low0 = 1(7)
    and high0 = 1(8)
  have mono': "ks ! a \<le> ks ! b" if "a \<le> b" "b < n" for a b
    using mono that by simp
  show ?case
  proof (cases "lo \<le> hi")
    case False
    with lohi have lo: "lo = hi + 1" by simp
    let ?u = "nat lo"
    have u: "int ?u = lo" using lo0 by simp
    have "?u \<le> n" using hin lo by simp
    moreover have "\<forall>j < ?u. ks ! j < key" using low0 u by auto
    moreover have "\<forall>j. ?u \<le> j \<and> j < n \<longrightarrow> key \<le> ks ! j"
    proof (intro allI impI)
      fix j assume j: "?u \<le> j \<and> j < n"
      then have "hi < int j" using lo u by linarith
      with high0 j show "key \<le> ks ! j" by simp
    qed
    moreover have "binary_leaf_loop ks key lo hi i = (i, hi)"
      using False by (subst binary_leaf_loop.simps) simp
    ultimately show ?thesis using lo u by (intro exI [of _ ?u]) simp
  next
    case True
    let ?mid = "lo + (hi - lo) div 2"
    have mid: "lo \<le> ?mid" "?mid \<le> hi" using True by auto
    then have m0: "0 \<le> ?mid" and mn: "nat ?mid < n" using lo0 hin by auto
    show ?thesis
    proof (cases "ks ! nat ?mid < key")
      case le: True
      have eq: "binary_leaf_loop ks key lo hi i = binary_leaf_loop ks key (?mid + 1) hi i"
        using True le by (subst binary_leaf_loop.simps) (simp add: Let_def)
      have low: "\<forall>j. int j < ?mid + 1 \<longrightarrow> ks ! j < key"
      proof (intro allI impI)
        fix j assume "int j < ?mid + 1"
        then have "j \<le> nat ?mid" using m0 by linarith
        then have "ks ! j \<le> ks ! nat ?mid" using mn by (rule mono')
        with le show "ks ! j < key" by simp
      qed
      from 1(1) [OF True refl le mono _ hin _ low high0] mid m0
      show ?thesis unfolding eq by simp
    next
      case gt: False
      have eq: "binary_leaf_loop ks key lo hi i = binary_leaf_loop ks key lo (?mid - 1) ?mid"
        using True gt by (subst binary_leaf_loop.simps) (simp add: Let_def)
      have high: "\<forall>j. ?mid - 1 < int j \<and> j < n \<longrightarrow> key \<le> ks ! j"
      proof (intro allI impI)
        fix j assume j: "?mid - 1 < int j \<and> j < n"
        then have "nat ?mid \<le> j" by linarith
        then have "ks ! nat ?mid \<le> ks ! j" using j by (intro mono') simp_all
        with gt show "key \<le> ks ! j" by simp
      qed
      have "?mid - 1 < int n" using mid hin by simp
      moreover have "lo \<le> ?mid - 1 + 1" using mid by simp
      ultimately obtain u where u: "u \<le> n" "\<forall>j<u. ks ! j < key"
        "\<forall>j. u \<le> j \<and> j < n \<longrightarrow> key \<le> ks ! j"
        "binary_leaf_loop ks key lo (?mid - 1) ?mid
           = (if int u - 1 = ?mid - 1 then ?mid else int u, int u - 1)"
        using 1(2) [OF True refl gt mono lo0 _ _ low0 high] by blast
      have "\<not> nat ?mid < u" using u(2) gt by auto
      then have um: "int u \<le> ?mid" using m0 by linarith
      then have "int u - 1 \<noteq> hi" using mid by simp
      moreover have "(if int u - 1 = ?mid - 1 then ?mid else int u) = int u" by simp
      ultimately have "binary_leaf_loop ks key lo hi i
          = (if int u - 1 = hi then i else int u, int u - 1)"
        unfolding eq u(4) by simp
      with u(1-3) show ?thesis by blast
    qed
  qed
qed

lemma binary_leaf_linear_leaf:
  assumes "sorted_wrt (<) (take n ks)" "n \<le> length ks"
  shows "binary_leaf n ks key = linear_leaf n ks key 0"
proof -
  have mono: "\<forall>a b. a \<le> b \<and> b < n \<longrightarrow> ks ! a \<le> ks ! b"
    using sorted_take_mono [OF assms(1,2)] by blast
  obtain u where u: "u \<le> n" "\<forall>j<u. ks ! j < key"
      "\<forall>j. u \<le> j \<and> j < n \<longrightarrow> key \<le> ks ! j"
      "binary_leaf_loop ks key 0 (int n - 1) (int n - 1)
         = (if int u - 1 = int n - 1 then int n - 1 else int u, int u - 1)"
  proof -
    have low: "\<forall>j. int j < 0 \<longrightarrow> ks ! j < key" by simp
    have high: "\<forall>j. int n - 1 < int j \<and> j < n \<longrightarrow> key \<le> ks ! j" by auto
    from binary_leaf_loop_spec [where i = "int n - 1", OF mono _ _ _ low high] that
    show ?thesis by auto
  qed
  have absent_below: "ks ! l \<noteq> key" if "l < u" for l using u(2) that by auto
  define i' where "i' = (if int u - 1 = int n - 1 then int n - 1 else int u)"
  have res: "binary_leaf n ks key
      = (if 0 \<le> i' \<and> i' < int n \<and> ks ! nat i' = key then Some (nat i') else None)"
    unfolding binary_leaf_def u(4) i'_def by simp
  show ?thesis
  proof (cases "u < n \<and> ks ! u = key")
    case True
    then have "i' = int u" by (simp add: i'_def)
    with True have "binary_leaf n ks key = Some u"
      unfolding res by simp
    moreover have "linear_leaf n ks key 0 = Some u"
    proof (rule linear_leaf_unique)
      show "\<forall>j. Some u = Some j \<longrightarrow> j < n \<and> ks ! j = key \<and> (\<forall>l<j. ks ! l \<noteq> key)"
        using True absent_below by simp
      show "Some u = None \<longrightarrow> (\<forall>l<n. ks ! l \<noteq> key)" by simp
    qed
    ultimately show ?thesis by simp
  next
    case False
    have none: "binary_leaf n ks key = None"
    proof (cases "u = n")
      case True
      then have i: "i' = int n - 1" by (simp add: i'_def)
      show ?thesis
      proof (cases "n = 0")
        case True
        then show ?thesis unfolding res i by simp
      next
        case False
        then have "nat (int n - 1) = n - 1" "n - 1 < u" using True by simp_all
        with absent_below [of "n - 1"] show ?thesis
          unfolding res i by simp
      qed
    next
      case False
      with u(1) have "u < n" by simp
      with \<open>\<not> (u < n \<and> ks ! u = key)\<close> have "ks ! u \<noteq> key" by simp
      moreover have "i' = int u" using False by (simp add: i'_def)
      ultimately show ?thesis unfolding res by simp
    qed
    have "ks ! l \<noteq> key" if "l < n" for l
    proof (cases "l < u")
      case True
      then show ?thesis by (rule absent_below)
    next
      case nb: False
      show ?thesis
      proof
        assume eq: "ks ! l = key"
        have "u < n" using nb that by simp
        have "key \<le> ks ! u" using u(3) \<open>u < n\<close> by simp
        moreover have "ks ! u \<le> ks ! l" using mono nb that by simp
        ultimately have "ks ! u = key" using eq by simp
        with False \<open>u < n\<close> show False by simp
      qed
    qed
    then have "linear_leaf n ks key 0 = None"
      by (intro linear_leaf_unique) simp_all
    with none show ?thesis by simp
  qed
qed

section \<open>The SIMD scans\<close>

lemma movemask_zero: "movemask bs = 0 \<Longrightarrow> j < length bs \<Longrightarrow> \<not> bs ! j"
proof (induction bs arbitrary: j)
  case Nil
  then show ?case by simp
next
  case (Cons b bs)
  from Cons.prems(1) have b: "\<not> b" and rest: "movemask bs = 0"
    by (auto split: if_splits)
  show ?case
  proof (cases j)
    case 0
    then show ?thesis using b by simp
  next
    case (Suc j')
    with Cons.prems(2) have "j' < length bs" by simp
    from Cons.IH [OF rest this] Suc show ?thesis by simp
  qed
qed

lemma first_set_lane:
  "movemask bs \<noteq> 0 \<Longrightarrow>
   ctz (movemask bs) < length bs \<and> bs ! ctz (movemask bs) \<and> (\<forall>j < ctz (movemask bs). \<not> bs ! j)"
proof (induction bs)
  case Nil
  then show ?case by simp
next
  case (Cons b bs)
  show ?case
  proof (cases b)
    case True
    then have "odd (movemask (b # bs))" by simp
    then have "ctz (movemask (b # bs)) = 0" by (subst ctz.simps) simp
    then show ?thesis using True by simp
  next
    case False
    then have m: "movemask (b # bs) = 2 * movemask bs" by simp
    with Cons.prems have nz: "movemask bs \<noteq> 0" by simp
    have "ctz (2 * movemask bs) = 1 + ctz (movemask bs)"
      using nz by (subst ctz.simps) simp
    then have c: "ctz (movemask (b # bs)) = Suc (ctz (movemask bs))" using m by simp
    from Cons.IH [OF nz] have IH: "ctz (movemask bs) < length bs" "bs ! ctz (movemask bs)"
      "\<forall>j < ctz (movemask bs). \<not> bs ! j" by simp_all
    have "\<not> (b # bs) ! j" if "j < Suc (ctz (movemask bs))" for j
    proof (cases j)
      case 0
      then show ?thesis using False by simp
    next
      case (Suc j')
      with that IH(3) show ?thesis by simp
    qed
    with IH(1,2) show ?thesis unfolding c by simp
  qed
qed

lemma length_loadu [simp]: "length (loadu past ks i) = 8"
  by (simp add: loadu_def)

lemma nth_loadu:
  "j < 8 \<Longrightarrow> i + j < length ks \<Longrightarrow> loadu past ks i ! j = ks ! (i + j)"
  by (simp add: loadu_def)

lemma simd_child_props:
  "n \<le> length ks \<Longrightarrow>
   simd_child past n ks key i \<le> n
   \<and> (i \<le> n \<longrightarrow> i \<le> simd_child past n ks key i)
   \<and> (\<forall>j. i \<le> j \<and> j < simd_child past n ks key i \<longrightarrow> ks ! j \<le> key)
   \<and> (simd_child past n ks key i < n \<longrightarrow> key < ks ! simd_child past n ks key i)"
proof (induction past n ks key i rule: simd_child.induct)
  case (1 past n ks key i)
  note len = 1(2)
  let ?bs = "cmpgt (loadu past ks i) key"
  let ?mask = "movemask ?bs"
  have lbs: "length ?bs = 8" by (simp add: cmpgt_def)
  have lane: "?bs ! j = (key < ks ! (i + j))" if "j < 8" "i + j < n" for j
    using that len by (simp add: cmpgt_def nth_loadu)
  show ?case
  proof (cases "i < n")
    case False
    then have r: "simd_child past n ks key i = n" by (subst simd_child.simps) simp
    show ?thesis unfolding r using False by simp
  next
    case True
    show ?thesis
    proof (cases "?mask \<noteq> 0 \<and> i + ctz ?mask < n")
      case found: True
      then have r: "simd_child past n ks key i = i + ctz ?mask"
        using True by (subst simd_child.simps) (simp add: Let_def)
      from first_set_lane [of ?bs] found lbs
      have f: "ctz ?mask < 8" "?bs ! ctz ?mask" "\<forall>j < ctz ?mask. \<not> ?bs ! j" by simp_all
      have "ks ! j \<le> key" if "i \<le> j \<and> j < i + ctz ?mask" for j
      proof -
        from that obtain d where d: "j = i + d" "d < ctz ?mask"
          by (metis add_diff_inverse_nat less_diff_conv2 not_less add.commute)
        then have "\<not> ?bs ! d" using f(3) by simp
        moreover have "?bs ! d = (key < ks ! (i + d))"
          using d f(1) found by (intro lane) simp_all
        ultimately show ?thesis using d by simp
      qed
      moreover have "key < ks ! (i + ctz ?mask)"
        using lane [of "ctz ?mask"] f(1,2) found by simp
      ultimately show ?thesis unfolding r using found by simp
    next
      case notfound: False
      then have r: "simd_child past n ks key i = simd_child past n ks key (i + 8)"
        using True by (subst simd_child.simps) (auto simp: Let_def)
      have chunk: "ks ! (i + d) \<le> key" if "d < 8" "i + d < n" for d
      proof (cases "?mask = 0")
        case True
        from movemask_zero [OF True, of d] that lbs have "\<not> ?bs ! d" by simp
        with lane [OF that] show ?thesis by simp
      next
        case False
        with notfound have ge: "n \<le> i + ctz ?mask" by simp
        from first_set_lane [OF False] have "\<forall>j < ctz ?mask. \<not> ?bs ! j" by simp
        moreover have "d < ctz ?mask" using ge that by simp
        ultimately have "\<not> ?bs ! d" by simp
        with lane [OF that] show ?thesis by simp
      qed
      from 1(1) [OF True refl notfound len]
      have IH: "simd_child past n ks key (i + 8) \<le> n"
        "\<forall>j. i + 8 \<le> j \<and> j < simd_child past n ks key (i + 8) \<longrightarrow> ks ! j \<le> key"
        "simd_child past n ks key (i + 8) < n \<longrightarrow> key < ks ! simd_child past n ks key (i + 8)"
        "i + 8 \<le> n \<longrightarrow> i + 8 \<le> simd_child past n ks key (i + 8)"
        by simp_all
      have ge: "i \<le> simd_child past n ks key (i + 8)"
      proof (cases "i + 8 \<le> n")
        case True
        with IH(4) show ?thesis by simp
      next
        case False
        then have "simd_child past n ks key (i + 8) = n" by (subst simd_child.simps) simp
        then show ?thesis using True by simp
      qed
      have "ks ! j \<le> key" if "i \<le> j \<and> j < simd_child past n ks key (i + 8)" for j
      proof (cases "j < i + 8")
        case True
        with that obtain d where d: "j = i + d" "d < 8"
          by (metis add_diff_inverse_nat less_diff_conv2 not_less add.commute)
        moreover have "j < n" using that IH(1) by simp
        ultimately show ?thesis using chunk by simp
      next
        case False
        with that IH(2) show ?thesis by simp
      qed
      with IH(1,3) ge show ?thesis unfolding r by simp
    qed
  qed
qed

lemma simd_child_upper_index:
  assumes "n \<le> length ks"
  shows "simd_child past n ks key 0 = upper_index n ks key 0"
proof -
  note p = simd_child_props [OF assms, of past key 0]
  have "upper_index n ks key 0 = simd_child past n ks key 0"
  proof (rule upper_index_unique)
    show "0 \<le> simd_child past n ks key 0" by simp
    show "simd_child past n ks key 0 \<le> n" using p by simp
    show "\<forall>j. 0 \<le> j \<and> j < simd_child past n ks key 0 \<longrightarrow> ks ! j \<le> key" using p by simp
    show "simd_child past n ks key 0 < n \<longrightarrow> key < ks ! simd_child past n ks key 0"
      using p by simp
  qed
  then show ?thesis by simp
qed

lemma simd_leaf_props:
  "n \<le> length ks \<Longrightarrow>
   (\<forall>j. simd_leaf past n ks key i = Some j \<longrightarrow>
        i \<le> j \<and> j < n \<and> ks ! j = key \<and> (\<forall>l. i \<le> l \<and> l < j \<longrightarrow> ks ! l \<noteq> key))
   \<and> (simd_leaf past n ks key i = None \<longrightarrow> (\<forall>l. i \<le> l \<and> l < n \<longrightarrow> ks ! l \<noteq> key))"
proof (induction past n ks key i rule: simd_leaf.induct)
  case (1 past n ks key i)
  note len = 1(2)
  let ?bs = "cmpeq (loadu past ks i) key"
  let ?mask = "movemask ?bs"
  have lbs: "length ?bs = 8" by (simp add: cmpeq_def)
  have lane: "?bs ! j = (ks ! (i + j) = key)" if "j < 8" "i + j < n" for j
    using that len by (simp add: cmpeq_def nth_loadu)
  show ?case
  proof (cases "i < n")
    case False
    then have r: "simd_leaf past n ks key i = None" by (subst simd_leaf.simps) simp
    show ?thesis unfolding r using False by simp
  next
    case True
    show ?thesis
    proof (cases "?mask \<noteq> 0 \<and> i + ctz ?mask < n")
      case found: True
      then have r: "simd_leaf past n ks key i = Some (i + ctz ?mask)"
        using True by (subst simd_leaf.simps) (simp add: Let_def)
      from first_set_lane [of ?bs] found lbs
      have f: "ctz ?mask < 8" "?bs ! ctz ?mask" "\<forall>j < ctz ?mask. \<not> ?bs ! j" by simp_all
      have "ks ! l \<noteq> key" if "i \<le> l \<and> l < i + ctz ?mask" for l
      proof -
        from that obtain d where d: "l = i + d" "d < ctz ?mask"
          by (metis add_diff_inverse_nat less_diff_conv2 not_less add.commute)
        then have "\<not> ?bs ! d" using f(3) by simp
        moreover have "?bs ! d = (ks ! (i + d) = key)"
          using d f(1) found by (intro lane) simp_all
        ultimately show ?thesis using d by simp
      qed
      moreover have "ks ! (i + ctz ?mask) = key"
        using lane [of "ctz ?mask"] f(1,2) found by simp
      ultimately show ?thesis unfolding r using found by simp
    next
      case notfound: False
      then have r: "simd_leaf past n ks key i = simd_leaf past n ks key (i + 8)"
        using True by (subst simd_leaf.simps) (auto simp: Let_def)
      have chunk: "ks ! (i + d) \<noteq> key" if "d < 8" "i + d < n" for d
      proof (cases "?mask = 0")
        case True
        from movemask_zero [OF True, of d] that lbs have "\<not> ?bs ! d" by simp
        with lane [OF that] show ?thesis by simp
      next
        case False
        with notfound have ge: "n \<le> i + ctz ?mask" by simp
        from first_set_lane [OF False] have "\<forall>j < ctz ?mask. \<not> ?bs ! j" by simp
        moreover have "d < ctz ?mask" using ge that by simp
        ultimately have "\<not> ?bs ! d" by simp
        with lane [OF that] show ?thesis by simp
      qed
      have below: "ks ! l \<noteq> key" if "i \<le> l" "l < i + 8" "l < n" for l
      proof -
        from that obtain d where d: "l = i + d" "d < 8"
          by (metis add_diff_inverse_nat less_diff_conv2 not_less add.commute)
        with chunk that(3) show ?thesis by simp
      qed
      from 1(1) [OF True refl notfound len]
      have IHs: "\<forall>j. simd_leaf past n ks key (i + 8) = Some j \<longrightarrow>
          i + 8 \<le> j \<and> j < n \<and> ks ! j = key \<and> (\<forall>l. i + 8 \<le> l \<and> l < j \<longrightarrow> ks ! l \<noteq> key)"
        and IHn: "simd_leaf past n ks key (i + 8) = None \<longrightarrow>
          (\<forall>l. i + 8 \<le> l \<and> l < n \<longrightarrow> ks ! l \<noteq> key)"
        by simp_all
      have some: "i \<le> j \<and> j < n \<and> ks ! j = key \<and> (\<forall>l. i \<le> l \<and> l < j \<longrightarrow> ks ! l \<noteq> key)"
        if "simd_leaf past n ks key (i + 8) = Some j" for j
      proof -
        from IHs that have j: "i + 8 \<le> j" "j < n" "ks ! j = key"
          "\<forall>l. i + 8 \<le> l \<and> l < j \<longrightarrow> ks ! l \<noteq> key" by simp_all
        have "ks ! l \<noteq> key" if l: "i \<le> l \<and> l < j" for l
        proof (cases "l < i + 8")
          case True
          with l j(2) show ?thesis by (intro below) simp_all
        next
          case False
          with l j(4) show ?thesis by simp
        qed
        with j show ?thesis by simp
      qed
      have none: "ks ! l \<noteq> key"
        if "simd_leaf past n ks key (i + 8) = None" "i \<le> l \<and> l < n" for l
      proof (cases "l < i + 8")
        case True
        with that(2) show ?thesis by (intro below) simp_all
      next
        case False
        with that IHn show ?thesis by simp
      qed
      show ?thesis unfolding r using some none by blast
    qed
  qed
qed

lemma simd_leaf_linear_leaf:
  assumes "n \<le> length ks"
  shows "simd_leaf past n ks key 0 = linear_leaf n ks key 0"
proof -
  note p = simd_leaf_props [OF assms, of past key 0]
  have "linear_leaf n ks key 0 = simd_leaf past n ks key 0"
  proof (rule linear_leaf_unique)
    show "\<forall>j. simd_leaf past n ks key 0 = Some j \<longrightarrow>
        j < n \<and> ks ! j = key \<and> (\<forall>l<j. ks ! l \<noteq> key)"
      using p by simp
    show "simd_leaf past n ks key 0 = None \<longrightarrow> (\<forall>l<n. ks ! l \<noteq> key)"
      using p by simp
  qed
  then show ?thesis by simp
qed

section \<open>The three lookups on a tree\<close>

lemma live_child: "i \<le> n \<Longrightarrow> n < length cs \<Longrightarrow> cs ! i \<in> set (take (n + 1) cs)"
proof -
  assume a: "i \<le> n" "n < length cs"
  then have "i < length (take (n + 1) cs)" by simp
  then have "take (n + 1) cs ! i \<in> set (take (n + 1) cs)" by (rule nth_mem)
  moreover have "take (n + 1) cs ! i = cs ! i" using a by simp
  ultimately show ?thesis by simp
qed

lemma findBinary_findLinear:
  "well_formed t \<Longrightarrow> ordered t \<Longrightarrow> separators_present t \<Longrightarrow>
   findBinary t key = findLinear t key"
proof (induction t)
  case (Leaf n ks vs)
  then have "binary_leaf n ks key = linear_leaf n ks key 0"
    by (intro binary_leaf_linear_leaf) simp_all
  then show ?case by simp
next
  case (Internal n ks cs)
  let ?u = "upper_index n ks key 0"
  from Internal.prems have wf: "n \<le> length ks" "n < length cs" "0 < n"
    "sorted_wrt (<) (take n ks)" by simp_all
  have u: "?u \<le> n" using upper_index_bounds [of 0 n ks key] by simp
  then have ulen: "?u < length cs" using wf(2) by simp
  have bc: "binary_child n ks key = Inr (int ?u)"
    by (rule binary_child_upper_index [OF wf(4,1,3)])
  have live: "cs ! ?u \<in> set (take (n + 1) cs)" by (rule live_child [OF u wf(2)])
  then have mem: "cs ! ?u \<in> set cs" by (rule in_set_takeD)
  have "findBinary (cs ! ?u) key = findLinear (cs ! ?u) key"
    by (rule Internal.IH [OF mem]) (use Internal.prems live in auto)
  then show ?case using bc ulen by (simp add: Let_def)
next
  case Dangling
  then show ?case by simp
qed

lemma findSIMD_findLinear:
  "well_formed t \<Longrightarrow> findSIMD past t key = findLinear t key"
proof (induction t)
  case (Leaf n ks vs)
  then have "simd_leaf past n ks key 0 = linear_leaf n ks key 0"
    by (intro simd_leaf_linear_leaf) simp
  then show ?case by simp
next
  case (Internal n ks cs)
  let ?u = "upper_index n ks key 0"
  from Internal.prems have wf: "n \<le> length ks" "n < length cs" by simp_all
  have u: "?u \<le> n" using upper_index_bounds [of 0 n ks key] by simp
  then have ulen: "?u < length cs" using wf(2) by simp
  have sc: "simd_child past n ks key 0 = ?u" by (rule simd_child_upper_index [OF wf(1)])
  have live: "cs ! ?u \<in> set (take (n + 1) cs)" by (rule live_child [OF u wf(2)])
  then have mem: "cs ! ?u \<in> set cs" by (rule in_set_takeD)
  have "findSIMD past (cs ! ?u) key = findLinear (cs ! ?u) key"
    by (rule Internal.IH [OF mem]) (use Internal.prems live in auto)
  then show ?case using sc ulen by (simp add: Let_def)
next
  case Dangling
  then show ?case by simp
qed

lemma findLinear_reached:
  "well_formed t \<Longrightarrow>
   \<exists>n ks vs. reached_leaf t key = Some (Leaf n ks vs) \<and> well_formed (Leaf n ks vs)
     \<and> findLinear t key = Inr (map_option (\<lambda>i. vs ! i) (linear_leaf n ks key 0))"
proof (induction t)
  case (Leaf n ks vs)
  then show ?case by simp
next
  case (Internal n ks cs)
  let ?u = "upper_index n ks key 0"
  from Internal.prems have wf: "n \<le> length ks" "n < length cs" by simp_all
  have u: "?u \<le> n" using upper_index_bounds [of 0 n ks key] by simp
  then have ulen: "?u < length cs" using wf(2) by simp
  have d: "descent_index n ks key = ?u" by (rule descent_index_upper_index [OF wf(1)])
  have live: "cs ! ?u \<in> set (take (n + 1) cs)" by (rule live_child [OF u wf(2)])
  then have mem: "cs ! ?u \<in> set cs" by (rule in_set_takeD)
  have "\<exists>n' ks' vs'. reached_leaf (cs ! ?u) key = Some (Leaf n' ks' vs')
      \<and> well_formed (Leaf n' ks' vs')
      \<and> findLinear (cs ! ?u) key = Inr (map_option (\<lambda>i. vs' ! i) (linear_leaf n' ks' key 0))"
    by (rule Internal.IH [OF mem]) (use Internal.prems live in auto)
  then show ?case using d ulen by (simp add: Let_def)
next
  case Dangling
  then show ?case by simp
qed

lemma valid_tree_parts:
  "valid_tree t \<Longrightarrow> well_formed t" "valid_tree t \<Longrightarrow> ordered t"
  by (simp_all add: valid_tree_def)

section \<open>Removal: the leaf and the path\<close>

lemma u16_fits: "u16 (int n) = n \<longleftrightarrow> n < 65536"
proof
  assume "u16 (int n) = n"
  then have "int n mod 65536 = int n" by (simp add: u16_def)
  moreover have "int n mod 65536 < 65536" by simp
  ultimately show "n < 65536" by linarith
next
  assume "n < 65536"
  then show "u16 (int n) = n" by simp
qed

lemma remove_leaf_linear_leaf:
  "remove_leaf n ks vs key k =
     (case linear_leaf n ks key k of
        None \<Rightarrow> Leaf n ks vs
      | Some j \<Rightarrow> Leaf (u16 (int n - 1)) (shift_left ks j n) (shift_left vs j n))"
proof (induction n ks vs key k rule: remove_leaf.induct)
  case (1 n ks vs key k)
  show ?case
  proof (cases "k < n")
    case False
    then show ?thesis
      by (subst remove_leaf.simps, subst linear_leaf.simps) simp
  next
    case True
    show ?thesis
    proof (cases "ks ! k = key")
      case hit: True
      with True show ?thesis
        by (subst remove_leaf.simps, subst linear_leaf.simps) simp
    next
      case miss: False
      have "remove_leaf n ks vs key k = remove_leaf n ks vs key (k + 1)"
        using True miss by (subst remove_leaf.simps) simp
      moreover have "linear_leaf n ks key k = linear_leaf n ks key (k + 1)"
        using True miss by (subst linear_leaf.simps) simp
      ultimately show ?thesis using 1 [OF True miss] by simp
    qed
  qed
qed

lemma erase_first_index:
  "j < length kvs \<Longrightarrow> fst (kvs ! j) = key \<Longrightarrow> (\<forall>l<j. fst (kvs ! l) \<noteq> key) \<Longrightarrow>
   erase_first key kvs = take j kvs @ drop (Suc j) kvs"
proof (induction kvs arbitrary: j)
  case Nil
  then show ?case by simp
next
  case (Cons kv kvs)
  obtain k v where kv: "kv = (k, v)" by (cases kv)
  show ?case
  proof (cases j)
    case 0
    with Cons.prems kv show ?thesis by simp
  next
    case (Suc j')
    with Cons.prems(3) have "fst ((kv # kvs) ! 0) \<noteq> key" by blast
    then have ne: "k \<noteq> key" using kv by simp
    have "erase_first key kvs = take j' kvs @ drop (Suc j') kvs"
    proof (rule Cons.IH)
      show "j' < length kvs" using Cons.prems(1) Suc by simp
      show "fst (kvs ! j') = key" using Cons.prems(2) Suc by simp
      show "\<forall>l<j'. fst (kvs ! l) \<noteq> key"
      proof (intro allI impI)
        fix l assume "l < j'"
        then have "Suc l < j" using Suc by simp
        with Cons.prems(3) have "fst ((kv # kvs) ! Suc l) \<noteq> key" by blast
        then show "fst (kvs ! l) \<noteq> key" by simp
      qed
    qed
    then show ?thesis using ne kv Suc by simp
  qed
qed

lemma take_shift_left:
  assumes "j < n" "n \<le> length xs"
  shows "take (n - 1) (shift_left xs j n) = take j xs @ drop (Suc j) (take n xs)"
proof (rule nth_equalityI)
  show "length (take (n - 1) (shift_left xs j n)) = length (take j xs @ drop (Suc j) (take n xs))"
    using assms by simp
next
  fix i assume "i < length (take (n - 1) (shift_left xs j n))"
  then have i: "i < n - 1" using assms by simp
  then have ilen: "i < length xs" using assms by simp
  show "take (n - 1) (shift_left xs j n) ! i = (take j xs @ drop (Suc j) (take n xs)) ! i"
  proof (cases "i < j")
    case True
    then show ?thesis using i ilen assms
      by (simp add: nth_shift_left nth_append)
  next
    case False
    then obtain d where d: "i = j + d" by (metis le_Suc_ex not_less)
    have "Suc (j + d) < n" using i d by simp
    then show ?thesis using d i ilen assms
      by (simp add: nth_shift_left nth_append)
  qed
qed

lemma removed_leaf_entries:
  assumes wf: "n \<le> length ks" "n \<le> length vs"
    and j: "j < n" "ks ! j = key" "\<forall>l<j. ks ! l \<noteq> key"
  shows "entries (Leaf (n - 1) (shift_left ks j n) (shift_left vs j n))
       = erase_first key (entries (Leaf n ks vs))"
proof -
  let ?kvs = "zip (take n ks) (take n vs)"
  have len: "length ?kvs = n" using wf by simp
  have nth: "fst (?kvs ! l) = ks ! l" if "l < n" for l using that wf by simp
  have "erase_first key ?kvs = take j ?kvs @ drop (Suc j) ?kvs"
  proof (rule erase_first_index)
    show "j < length ?kvs" using j(1) len by simp
    show "fst (?kvs ! j) = key" using nth [OF j(1)] j(2) by simp
    show "\<forall>l<j. fst (?kvs ! l) \<noteq> key"
    proof (intro allI impI)
      fix l assume "l < j"
      then have "l < n" using j(1) by simp
      from nth [OF this] j(3) \<open>l < j\<close> show "fst (?kvs ! l) \<noteq> key" by simp
    qed
  qed
  also have "take j ?kvs = zip (take j ks) (take j vs)"
    using j(1) by (simp add: take_zip min_def)
  also have "drop (Suc j) ?kvs = zip (drop (Suc j) (take n ks)) (drop (Suc j) (take n vs))"
    by (simp add: drop_zip)
  also have "zip (take j ks) (take j vs) @ zip (drop (Suc j) (take n ks)) (drop (Suc j) (take n vs))
      = zip (take j ks @ drop (Suc j) (take n ks)) (take j vs @ drop (Suc j) (take n vs))"
    using j(1) wf by (intro zip_append [symmetric]) simp
  finally show ?thesis
    using take_shift_left [OF j(1) wf(1)] take_shift_left [OF j(1) wf(2)] by simp
qed

lemma replace_reached_same:
  "reached_leaf t key = Some l \<Longrightarrow> replace_reached t key l = t"
proof (induction t key arbitrary: l rule: reached_leaf.induct)
  case (1 n ks vs key)
  then have "l = Leaf n ks vs" by simp
  then show ?case by simp
next
  case (2 n ks cs key)
  let ?d = "descent_index n ks key"
  from 2(2) have d: "?d < length cs" and r: "reached_leaf (cs ! ?d) key = Some l"
    by (auto split: if_splits)
  from 2(1) [OF d r] have "replace_reached (cs ! ?d) key l = cs ! ?d" .
  then show ?case using d by simp
next
  case (3 key)
  then show ?case by simp
qed

lemma remove_recursive_reached:
  "well_formed t \<Longrightarrow>
   \<exists>n ks vs. reached_leaf t key = Some (Leaf n ks vs) \<and> well_formed (Leaf n ks vs)
     \<and> remove_recursive t key = Inr (replace_reached t key (remove_leaf n ks vs key 0))"
proof (induction t)
  case (Leaf n ks vs)
  then show ?case by simp
next
  case (Internal n ks cs)
  let ?u = "upper_index n ks key 0"
  from Internal.prems have wf: "n \<le> length ks" "n < length cs" by simp_all
  have u: "?u \<le> n" using upper_index_bounds [of 0 n ks key] by simp
  then have ulen: "?u < length cs" using wf(2) by simp
  have d: "descent_index n ks key = ?u" by (rule descent_index_upper_index [OF wf(1)])
  have live: "cs ! ?u \<in> set (take (n + 1) cs)" by (rule live_child [OF u wf(2)])
  then have mem: "cs ! ?u \<in> set cs" by (rule in_set_takeD)
  have "\<exists>n' ks' vs'. reached_leaf (cs ! ?u) key = Some (Leaf n' ks' vs')
      \<and> well_formed (Leaf n' ks' vs')
      \<and> remove_recursive (cs ! ?u) key
          = Inr (replace_reached (cs ! ?u) key (remove_leaf n' ks' vs' key 0))"
    by (rule Internal.IH [OF mem]) (use Internal.prems live in auto)
  then show ?case using d ulen by (auto simp: Let_def)
next
  case Dangling
  then show ?case by simp
qed

section \<open>Every internal node of a tree of the program has a separator\<close>

lemma split_internal_sep:
  assumes M: "3 \<le> M" "M < 65536"
    and len: "length ks = M" "length cs = M + 1"
    and kids: "\<forall>c \<in> set cs. separators_present c"
    and res: "split_internal M L g M ks cs = Inr (l, r, med, g')"
  shows "separators_present l \<and> separators_present r"
proof -
  let ?mid = "M div 2"
  let ?cnt = "int M - (int ?mid + 1)"
  from res obtain p where
    l: "l = Internal (u16 (int ?mid)) ks cs" and
    r: "r = Internal (u16 ?cnt)
              (copy_from (uninit_keys M L p) ks (?mid + 1) ?cnt 0)
              (copy_from (uninit_children M) cs (?mid + 1) (?cnt + 1) 0)"
    by (auto simp: split_internal_def Let_def split: sum.splits prod.splits)
  have half: "?mid < M" "0 < ?mid" "?mid < 65536" using M by auto
  have some: "0 < M - Suc ?mid" using M by auto
  have cnt: "?cnt = int (M - Suc ?mid)" using half by simp
  have cnt1: "?cnt + 1 = int (M - ?mid)" using half by simp
  have u: "u16 ?cnt = M - Suc ?mid"
  proof -
    have "u16 (int (M - Suc ?mid)) = M - Suc ?mid" using M by (intro u16_int) simp
    then show ?thesis by (simp only: cnt)
  qed
  have left: "separators_present l"
    using l half kids by (auto dest: in_set_takeD)
  have "take (M - ?mid) (copy_from (uninit_children M) cs (?mid + 1) (int (M - ?mid)) 0)
      = take (M - ?mid) (drop (?mid + 1) cs)"
    using len half by (intro take_copy_from) auto
  then have live: "set (take (Suc (M - Suc ?mid))
      (copy_from (uninit_children M) cs (?mid + 1) (?cnt + 1) 0)) \<subseteq> set cs"
    unfolding cnt1 using half
    by (metis Suc_diff_Suc in_set_dropD in_set_takeD subsetI)
  have "separators_present r"
    unfolding r u using some kids live by auto
  with left show ?thesis by simp
qed

lemma insert_leaf_sep:
  assumes res: "insert_leaf M L g n ks vs key val = Inr (node, r, g')"
  shows "separators_present node \<and> (\<forall>sib med. r = Some (sib, med) \<longrightarrow> separators_present sib)"
  using res
  by (auto simp: insert_leaf_def split_leaf_def Let_def split: if_splits sum.splits prod.splits)

lemma insert_internal_sep:
  assumes M: "3 \<le> M" "M < 65536"
    and inv: "n < M" "length ks = M" "length cs = M + 1"
    and kids: "\<forall>c \<in> set (take (n + 1) cs). separators_present c"
    and i: "i \<le> n"
    and sib: "separators_present child_sibling"
    and res: "insert_internal M L g n ks cs i child_sibling child_median = Inr (node, r, g')"
  shows "separators_present node \<and> (\<forall>sib med. r = Some (sib, med) \<longrightarrow> separators_present sib)"
proof -
  let ?ks = "(shift_right ks n i)[i := child_median]"
  let ?cs = "(shift_right cs (n + 1) (i + 1))[i + 1 := child_sibling]"
  have n': "u16 (int n + 1) = Suc n" using inv(1) M by simp
  have "take (Suc (n + 1)) ?cs
      = take (i + 1) cs @ child_sibling # drop (i + 1) (take (n + 1) cs)"
    using i inv by (intro take_shift_right_update) auto
  moreover have "set (take (i + 1) cs) \<subseteq> set (take (n + 1) cs)"
    using i by (intro set_take_subset_set_take) simp
  ultimately have "set (take (Suc (Suc n)) ?cs) \<subseteq> insert child_sibling (set (take (n + 1) cs))"
    by (auto dest: in_set_dropD)
  with kids sib have live: "\<forall>c \<in> set (take (Suc (Suc n)) ?cs). separators_present c"
    by auto
  show ?thesis
  proof (cases "Suc n \<ge> M")
    case full: True
    then have eq: "Suc n = M" using inv(1) by simp
    have all: "\<forall>c \<in> set ?cs. separators_present c"
    proof -
      have "take (Suc (Suc n)) ?cs = ?cs" using inv eq by simp
      with live show ?thesis by simp
    qed
    from res inv(1) full obtain med where
      sp: "split_internal M L g M ?ks ?cs = Inr (node, the (map_option fst r), med, g')"
        and r: "r = Some (the (map_option fst r), med)"
      by (auto simp: insert_internal_def Let_def n' eq split: sum.splits prod.splits)
    from split_internal_sep [OF M _ _ all sp] inv r show ?thesis
      by auto
  next
    case notfull: False
    with res inv(1) have "node = Internal (Suc n) ?ks ?cs" "r = None"
      by (auto simp: insert_internal_def Let_def n')
    then show ?thesis using live by simp
  qed
qed

lemma insert_recursive_sep:
  "3 \<le> M \<Longrightarrow> M < 65536 \<Longrightarrow> node_inv M h node \<Longrightarrow> separators_present node \<Longrightarrow>
   insert_recursive M L g node key val = Inr (node', r, g') \<Longrightarrow>
   separators_present node' \<and> (\<forall>sib med. r = Some (sib, med) \<longrightarrow> separators_present sib)"
proof (induction M L g node key val arbitrary: h node' r g' rule: insert_recursive.induct)
  case (1 M L g n ks vs key val)
  from insert_leaf_sep [of M L g n ks vs key val node' r g'] 1(5)
  show ?case by simp
next
  case (2 M L g n ks cs key val)
  let ?i = "lower_index n ks key 0"
  from 2(4) have h: "0 < h" and n: "n < M" and len: "length ks = M" "length cs = M + 1"
    and kids: "\<forall>c \<in> set (take (n + 1) cs). node_inv M (h - 1) c"
    by simp_all
  from 2(5) have pos: "0 < n"
    and seps: "\<forall>c \<in> set (take (n + 1) cs). separators_present c"
    by simp_all
  have i: "?i \<le> n" using lower_index_bounds [of 0 n ks key] by simp
  then have ilen: "?i < length cs" using n len by simp
  have mem: "cs ! ?i \<in> set (take (n + 1) cs)"
    using i ilen n len by (intro live_child) simp_all
  with kids have child: "node_inv M (h - 1) (cs ! ?i)" by simp
  from mem seps have childsep: "separators_present (cs ! ?i)" by simp
  from 2(6) ilen obtain child' rc gc where
    rec: "insert_recursive M L g (cs ! ?i) key val = Inr (child', rc, gc)"
    by (auto simp: Let_def split: sum.splits)
  have IH: "separators_present child'
      \<and> (\<forall>sib med. rc = Some (sib, med) \<longrightarrow> separators_present sib)"
    using 2(1) [OF refl _ 2(2,3) child childsep rec] ilen by simp
  have kids': "\<forall>c \<in> set (take (n + 1) (cs[?i := child'])). separators_present c"
  proof
    fix c assume "c \<in> set (take (n + 1) (cs[?i := child']))"
    then have "c \<in> set ((take (n + 1) cs)[?i := child'])" by (simp add: take_update_swap)
    then have "c \<in> insert child' (set (take (n + 1) cs))"
      using set_update_subset_insert by fastforce
    with seps IH show "separators_present c" by auto
  qed
  show ?case
  proof (cases rc)
    case None
    with 2(6) ilen rec have "node' = Internal n ks (cs[?i := child'])" "r = None"
      by (auto simp: Let_def)
    then show ?thesis using pos kids' by simp
  next
    case (Some sm)
    obtain sib med where sm: "sm = (sib, med)" by (cases sm)
    with Some 2(6) ilen rec have
      ins: "insert_internal M L gc n ks (cs[?i := child']) ?i sib med = Inr (node', r, g')"
      by (auto simp: Let_def)
    have sibsep: "separators_present sib" using IH Some sm by simp
    have len': "length (cs[?i := child']) = M + 1" using len(2) by simp
    show ?thesis
      by (rule insert_internal_sep [OF 2(2,3) n len(1) len' kids' i sibsep ins])
  qed
next
  case (3 M L g key val)
  then show ?case by simp
qed

lemma insert_bpt_sep:
  assumes M: "3 \<le> M" "M < 65536"
    and inv: "node_inv M h (fst t)" "separators_present (fst t)"
    and res: "insert_bpt M L t key val = Inr t'"
  shows "separators_present (fst t')"
proof -
  from res obtain root r g' where
    rec: "insert_recursive M L (snd t) (fst t) key val = Inr (root, r, g')"
    by (auto simp: insert_bpt_def split: sum.splits)
  note IH = insert_recursive_sep [OF M inv rec]
  show ?thesis
  proof (cases r)
    case None
    with res rec have "fst t' = root" by (auto simp: insert_bpt_def)
    with IH show ?thesis by simp
  next
    case (Some sm)
    obtain sib med where sm: "sm = (sib, med)" by (cases sm)
    with Some res rec obtain p where
      t': "fst t' = Internal (u16 1) ((uninit_keys M L p)[0 := med])
             ((uninit_children M)[0 := root, 1 := sib])"
      by (auto simp: insert_bpt_def split: sum.splits)
    have "take 2 ((uninit_children M :: ('a, 'b) Node list)[0 := root, 1 := sib]) = [root, sib]"
      using M by (simp add: uninit_children_def take_Suc_conv_app_nth numeral_2_eq_2)
    moreover have "u16 1 = 1" by (simp add: u16_def)
    ultimately show ?thesis
      using IH Some sm unfolding t' by (simp add: numeral_2_eq_2)
  qed
qed

lemma remove_leaf_inv:
  assumes "M < 65536" "n < M" "length ks = M" "length vs = M"
  shows "node_inv M 0 (remove_leaf n ks vs key 0)"
proof (cases "linear_leaf n ks key 0")
  case None
  then show ?thesis using assms by (simp add: remove_leaf_linear_leaf)
next
  case (Some j)
  from linear_leaf_Some [OF Some] have "1 \<le> n" by simp
  moreover have "n < 65536" using assms(1,2) by simp
  ultimately have "u16 (int n - 1) = n - 1" using u16_int_diff [of 1 n] by simp
  then show ?thesis using assms Some by (simp add: remove_leaf_linear_leaf)
qed

lemma remove_recursive_inv:
  "M < 65536 \<Longrightarrow> node_inv M h t \<Longrightarrow> separators_present t \<Longrightarrow>
   \<exists>t'. remove_recursive t key = Inr t' \<and> node_inv M h t' \<and> separators_present t'"
proof (induction t arbitrary: h)
  case (Leaf n ks vs)
  from Leaf(2) have "h = 0" "n < M" "length ks = M" "length vs = M" by simp_all
  with remove_leaf_inv [OF Leaf(1), of n ks vs key]
  have inv: "node_inv M h (remove_leaf n ks vs key 0)" by simp
  have "separators_present (remove_leaf n ks vs key 0)"
    by (simp add: remove_leaf_linear_leaf split: option.splits)
  with inv show ?case by simp
next
  case (Internal n ks cs)
  let ?i = "upper_index n ks key 0"
  from Internal(3) have h: "0 < h" and n: "n < M" and len: "length ks = M" "length cs = M + 1"
    and kids: "\<forall>c \<in> set (take (n + 1) cs). node_inv M (h - 1) c"
    by simp_all
  from Internal(4) have pos: "0 < n"
    and seps: "\<forall>c \<in> set (take (n + 1) cs). separators_present c"
    by simp_all
  have i: "?i \<le> n" using upper_index_bounds [of 0 n ks key] by simp
  then have ilen: "?i < length cs" using n len by simp
  have mem: "cs ! ?i \<in> set (take (n + 1) cs)"
    using i ilen n len by (intro live_child) simp_all
  then have "cs ! ?i \<in> set cs" by (rule in_set_takeD)
  from Internal(1) [OF this Internal(2), of "h - 1"] mem kids seps
  obtain child where
    rec: "remove_recursive (cs ! ?i) key = Inr child"
    and child: "node_inv M (h - 1) child" "separators_present child"
    by auto
  have live: "c \<in> insert child (set (take (n + 1) cs))"
    if "c \<in> set (take (n + 1) (cs[?i := child]))" for c
  proof -
    from that have "c \<in> set ((take (n + 1) cs)[?i := child])" by (simp add: take_update_swap)
    then show ?thesis using set_update_subset_insert by fastforce
  qed
  have "remove_recursive (Internal n ks cs) key = Inr (Internal n ks (cs[?i := child]))"
    using ilen rec by (simp add: Let_def)
  moreover have "node_inv M h (Internal n ks (cs[?i := child]))"
    using h n len kids child(1) live by auto
  moreover have "separators_present (Internal n ks (cs[?i := child]))"
    using pos seps child(2) live by auto
  ultimately show ?case by simp
next
  case Dangling
  then show ?case by simp
qed

lemma call_all_inv:
  "3 \<le> M \<Longrightarrow> M < 65536 \<Longrightarrow> node_inv M h (fst t) \<Longrightarrow> separators_present (fst t) \<Longrightarrow>
   call_all M L t calls = Inr t' \<Longrightarrow>
   (\<exists>h'. node_inv M h' (fst t')) \<and> separators_present (fst t')"
proof (induction calls arbitrary: t h)
  case Nil
  then show ?case by auto
next
  case (Cons c calls)
  show ?case
  proof (cases c)
    case (Insert k v)
    with Cons.prems(5) obtain t1 where
      step: "insert_bpt M L t k v = Inr t1" and rest: "call_all M L t1 calls = Inr t'"
      by (auto split: sum.splits)
    have M2: "2 \<le> M" using Cons.prems(1) by simp
    from insert_bpt_inv [OF M2 Cons.prems(2,3) step]
    obtain h1 where h1: "node_inv M h1 (fst t1)" by blast
    have "separators_present (fst t1)"
      by (rule insert_bpt_sep [OF Cons.prems(1,2,3,4) step])
    from Cons.IH [OF Cons.prems(1,2) h1 this rest] show ?thesis .
  next
    case (Remove k)
    from remove_recursive_inv [OF Cons.prems(2,3,4), of k] obtain root where
      rm: "remove_recursive (fst t) k = Inr root"
      and root: "node_inv M h root" "separators_present root"
      by blast
    with Remove Cons.prems(5) have rest: "call_all M L (root, snd t) calls = Inr t'"
      by (simp add: remove_bpt_def)
    from Cons.IH [OF Cons.prems(1,2) _ _ rest] root show ?thesis by simp
  qed
qed

lemma run_inv:
  assumes "3 \<le> M" "M < 65536" "run M L g calls = Inr t"
  shows "(\<exists>h. node_inv M h (fst t)) \<and> separators_present (fst t)"
proof -
  from assms(3) obtain t0 where
    new: "BPlusTree_new M L g = Inr t0" and calls: "call_all M L t0 calls = Inr t"
    by (auto simp: run_def split: sum.splits)
  from BPlusTree_new_inv [OF _ new] assms(1) have inv: "node_inv M 0 (fst t0)" by simp
  from new have "separators_present (fst t0)"
    by (auto simp: BPlusTree_new_def split: sum.splits)
  from call_all_inv [OF assms(1,2) inv this calls] show ?thesis .
qed

section \<open>Balance\<close>

text \<open>
  C5: after any sequence of inserts into the empty tree the tree is balanced: the path
  from the root has the same length for every leaf.  The fan-out is any \<open>M\<close> from 2 that
  \<^verbatim>\<open>uint16_t num_keys\<close> can count to, and the inserts are those that did not run out of
  arena.
\<close>

theorem inserts_keep_balance:
  assumes "2 \<le> M" and "M < 65536" and "build M L g kvs = Inr (t, g')"
  shows "balanced t"
proof -
  from build_inv [OF assms] obtain h where "node_inv M h t" by auto
  then show ?thesis by (rule node_inv_balanced)
qed

theorem inserts_keep_balance_witness:
  "build 4 example_layout example_arena [(10, 100), (20, 200), (5, 50), (6, 60)]
     = Inr (Internal 1 [10, 0, 0, 0]
              [Leaf 2 [5, 6, 10, 20] [50, 60, 100, 200],
               Leaf 2 [10, 20, 0, 0] [100, 200, 0, 0], Dangling, Dangling, Dangling],
            Some \<lparr>memory = 0, offset = 192, capacity = 4096\<rparr>)
   \<and> balanced (Internal 1 [10, 0, 0, 0]
              [Leaf 2 [5, 6, 10, 20] [50, 60, 100, 200],
               Leaf 2 [10, 20, 0, 0] [100, 200, 0, 0], Dangling, Dangling, Dangling]
              :: (int, int) Node)"
proof -
  have b: "build 4 example_layout example_arena [(10, 100), (20, 200), (5, 50), (6, 60)]
     = Inr (Internal 1 [10, 0, 0, 0]
              [Leaf 2 [5, 6, 10, 20] [50, 60, 100, 200],
               Leaf 2 [10, 20, 0, 0] [100, 200, 0, 0], Dangling, Dangling, Dangling],
            Some \<lparr>memory = 0, offset = 192, capacity = 4096\<rparr>)"
    by code_simp
  have "(2::nat) \<le> 4" and "(4::nat) < 65536" by simp_all
  from inserts_keep_balance [OF this b] b show ?thesis by simp
qed

section \<open>Splits\<close>

text \<open>
  C6, as stated, fails on the code in one point: the insert that fills the root leaf
  splits it and \<^verbatim>\<open>insert\<close> then allocates a new root above the two leaves, so that the
  tree has three nodes, not two.  With \<open>M = 4\<close>, after the fourth insert:
\<close>

theorem two_node_tree_counterexample:
  "build 4 example_layout example_arena [(10, 100), (20, 200), (5, 50), (6, 60)]
     = Inr (Internal 1 [10, 0, 0, 0]
              [Leaf 2 [5, 6, 10, 20] [50, 60, 100, 200],
               Leaf 2 [10, 20, 0, 0] [100, 200, 0, 0], Dangling, Dangling, Dangling],
            Some \<lparr>memory = 0, offset = 192, capacity = 4096\<rparr>)
   \<and> node_count (Internal 1 [10, 0, 0, 0]
              [Leaf 2 [5, 6, 10, 20] [50, 60, 100, 200],
               Leaf 2 [10, 20, 0, 0] [100, 200, 0, 0], Dangling, Dangling, Dangling]
              :: (int, int) Node) = 3"
  by code_simp

text \<open>
  C6, amended.  Let \<open>2 \<le> M < 65536\<close>.  Inserting \<open>M - 1\<close> distinct keys into the empty tree
  always succeeds, allocates nothing and leaves a single leaf with \<open>M - 1\<close> keys: no split.
  If the insert of one more distinct key returns, it has allocated exactly two nodes
  (the new leaf and a new root) and the tree is an internal root with one separator over
  two leaves holding \<open>M div 2\<close> and \<open>M - M div 2\<close> keys: one split, three nodes.  After any
  sequence of inserts every node holds fewer than \<open>M\<close> keys in arrays of size \<open>M\<close>
  (\<open>node_inv\<close>), and a further insert can only fail for want of arena, never by writing
  outside an array.  A leaf or an internal node that holds \<open>n < M\<close> keys is split by an
  insertion exactly when that brings it to \<open>n + 1 = M\<close> keys.
\<close>

theorem split_at_capacity:
  assumes M: "2 \<le> M" "M < 65536"
    and new: "BPlusTree_new M L g = Inr (t0, g0)"
    and len: "length kvs = M - 1"
    and dist: "distinct (map fst kvs)"
    and fresh: "k \<notin> set (map fst kvs)"
  shows "\<exists>ks vs.
      insert_all M L (t0, g0) kvs = Inr (Leaf (M - 1) ks vs, g0)
    \<and> (\<forall>t g'. insert_bpt M L (Leaf (M - 1) ks vs, g0) k v = Inr (t, g') \<longrightarrow>
          (\<exists>g1 p1 p2 sks cs lks lvs rks rvs.
              operator_new L g0 = Inr (p1, g1) \<and> operator_new L g1 = Inr (p2, g')
            \<and> t = Internal 1 sks cs
            \<and> take 2 cs = [Leaf (M div 2) lks lvs, Leaf (M - M div 2) rks rvs]
            \<and> node_count t = 3))
    \<and> (\<forall>kvs' t g'. insert_all M L (t0, g0) kvs' = Inr (t, g') \<longrightarrow>
          (\<exists>h. node_inv M h t)
        \<and> (\<forall>k' v' e. insert_bpt M L (t, g') k' v' = Inl e \<longrightarrow>
              e = OutOfArena \<or> e = ArenaUnavailable))
    \<and> (\<forall>n ks' vs' g2 k' v' node r g3.
          n < M \<and> insert_leaf M L g2 n ks' vs' k' v' = Inr (node, r, g3) \<longrightarrow>
          (r \<noteq> None \<longleftrightarrow> n + 1 = M))
    \<and> (\<forall>n ks' cs g2 i s m node r g3.
          n < M \<and> insert_internal M L g2 n ks' cs i s m = Inr (node, r, g3) \<longrightarrow>
          (r \<noteq> None \<longleftrightarrow> n + 1 = M))"
proof -
  from new obtain p where t0: "t0 = Leaf 0 (uninit_keys M L p) (uninit_vals M L p)"
    by (auto simp: BPlusTree_new_def split: sum.splits)
  have "0 + length kvs < M" using len M by simp
  from insert_all_leaf_room [OF this M(2), of L "uninit_keys M L p" "uninit_vals M L p" g0]
  obtain ks vs where
    fill: "insert_all M L (t0, g0) kvs = Inr (Leaf (M - 1) ks vs, g0)"
    unfolding t0 using len by auto
  have full: "Suc (M - 1) = M" using M by simp
  have split: "\<exists>g1 p1 p2 sks cs lks lvs rks rvs.
              operator_new L g0 = Inr (p1, g1) \<and> operator_new L g1 = Inr (p2, g')
            \<and> t = Internal 1 sks cs
            \<and> take 2 cs = [Leaf (M div 2) lks lvs, Leaf (M - M div 2) rks rvs]
            \<and> node_count t = 3"
    if "insert_bpt M L (Leaf (M - 1) ks vs, g0) k v = Inr (t, g')" for t g'
    by (rule insert_bpt_full_leaf [OF M full that])
  have reach: "(\<exists>h. node_inv M h t)
        \<and> (\<forall>k' v' e. insert_bpt M L (t, g') k' v' = Inl e \<longrightarrow>
              e = OutOfArena \<or> e = ArenaUnavailable)"
    if ins: "insert_all M L (t0, g0) kvs' = Inr (t, g')" for kvs' t g'
  proof -
    from insert_all_reachable [OF M new ins] obtain h where h: "node_inv M h t" by auto
    then have "e = OutOfArena \<or> e = ArenaUnavailable"
      if "insert_bpt M L (t, g') k' v' = Inl e" for k' v' e
      using insert_bpt_errors [OF M _ that] by simp
    with h show ?thesis by blast
  qed
  have leafs: "r \<noteq> None \<longleftrightarrow> n + 1 = M"
    if "n < M \<and> insert_leaf M L g2 n ks' vs' k' v' = Inr (node, r, g3)"
    for n ks' vs' g2 k' v' node r g3
    using insert_leaf_splits_iff [of n M L g2 ks' vs' k' v' node r g3] that M(2) by simp
  have ints: "r \<noteq> None \<longleftrightarrow> n + 1 = M"
    if "n < M \<and> insert_internal M L g2 n ks' cs i s m = Inr (node, r, g3)"
    for n ks' cs g2 i s m node r g3
    using insert_internal_splits_iff [of n M L g2 ks' cs i s m node r g3] that M(2) by simp
  show ?thesis
  proof (rule exI [of _ ks], rule exI [of _ vs], intro conjI allI impI)
    show "insert_all M L (t0, g0) kvs = Inr (Leaf (M - 1) ks vs, g0)" by (rule fill)
  next
    fix t g' assume "insert_bpt M L (Leaf (M - 1) ks vs, g0) k v = Inr (t, g')"
    then show "\<exists>g1 p1 p2 sks cs lks lvs rks rvs.
              operator_new L g0 = Inr (p1, g1) \<and> operator_new L g1 = Inr (p2, g')
            \<and> t = Internal 1 sks cs
            \<and> take 2 cs = [Leaf (M div 2) lks lvs, Leaf (M - M div 2) rks rvs]
            \<and> node_count t = 3"
      by (rule split)
  next
    fix kvs' t g' assume "insert_all M L (t0, g0) kvs' = Inr (t, g')"
    from reach [OF this] show "\<exists>h. node_inv M h t" by (rule conjunct1)
  next
    fix kvs' t g' k' v' e
    assume "insert_all M L (t0, g0) kvs' = Inr (t, g')"
      and "insert_bpt M L (t, g') k' v' = Inl e"
    with reach show "e = OutOfArena \<or> e = ArenaUnavailable" by blast
  next
    fix n ks' vs' g2 k' v' node r g3
    assume "n < M \<and> insert_leaf M L g2 n ks' vs' k' v' = Inr (node, r, g3)"
    then show "(r \<noteq> None) = (n + 1 = M)" by (rule leafs)
  next
    fix n ks' cs g2 i s m node r g3
    assume "n < M \<and> insert_internal M L g2 n ks' cs i s m = Inr (node, r, g3)"
    then show "(r \<noteq> None) = (n + 1 = M)" by (rule ints)
  qed
qed

theorem split_at_capacity_witness:
  "BPlusTree_new 4 example_layout example_arena
     = Inr (Leaf 0 [0, 0, 0, 0] [0, 0, 0, 0], Some \<lparr>memory = 0, offset = 64, capacity = 4096\<rparr>)
   \<and> distinct (map fst [(10, 100), (20, 200), (5 :: int, 50 :: int)])
   \<and> 6 \<notin> set (map fst [(10, 100), (20, 200), (5 :: int, 50 :: int)])
   \<and> insert_all 4 example_layout
         (Leaf 0 [0, 0, 0, 0] [0, 0, 0, 0], Some \<lparr>memory = 0, offset = 64, capacity = 4096\<rparr>)
         [(10, 100), (20, 200), (5, 50)]
       = Inr (Leaf 3 [5, 10, 20, 0] [50, 100, 200, 0],
              Some \<lparr>memory = 0, offset = 64, capacity = 4096\<rparr>)
   \<and> insert_bpt 4 example_layout
         (Leaf 3 [5, 10, 20, 0] [50, 100, 200, 0],
          Some \<lparr>memory = 0, offset = 64, capacity = 4096\<rparr>) 6 60
       = Inr (Internal 1 [10, 0, 0, 0]
                [Leaf 2 [5, 6, 10, 20] [50, 60, 100, 200],
                 Leaf 2 [10, 20, 0, 0] [100, 200, 0, 0], Dangling, Dangling, Dangling],
              Some \<lparr>memory = 0, offset = 192, capacity = 4096\<rparr>)
   \<and> node_count (Internal 1 [10, 0, 0, 0]
                [Leaf 2 [5, 6, 10, 20] [50, 60, 100, 200],
                 Leaf 2 [10, 20, 0, 0] [100, 200, 0, 0], Dangling, Dangling, Dangling]
                :: (int, int) Node) = 3"
proof -
  let ?g0 = "Some \<lparr>memory = 0, offset = 64, capacity = 4096\<rparr>"
  let ?kvs = "[(10, 100), (20, 200), (5 :: int, 50 :: int)]"
  have new: "BPlusTree_new 4 example_layout example_arena
     = Inr (Leaf 0 [0, 0, 0, 0] [0, 0, 0, 0], ?g0)"
    by code_simp
  have fill: "insert_all 4 example_layout (Leaf 0 [0, 0, 0, 0] [0, 0, 0, 0], ?g0) ?kvs
       = Inr (Leaf 3 [5, 10, 20, 0] [50, 100, 200, 0], ?g0)"
    by code_simp
  have ins: "insert_bpt 4 example_layout (Leaf 3 [5, 10, 20, 0] [50, 100, 200, 0], ?g0) 6 60
       = Inr (Internal 1 [10, 0, 0, 0]
                [Leaf 2 [5, 6, 10, 20] [50, 60, 100, 200],
                 Leaf 2 [10, 20, 0, 0] [100, 200, 0, 0], Dangling, Dangling, Dangling],
              Some \<lparr>memory = 0, offset = 192, capacity = 4096\<rparr>)"
    by code_simp
  have hyp: "(2::nat) \<le> 4" "(4::nat) < 65536" "length ?kvs = 4 - 1"
    "distinct (map fst ?kvs)" "6 \<notin> set (map fst ?kvs)"
    by simp_all
  note th = split_at_capacity [OF hyp(1,2) new hyp(3,4,5), of 60]
  have "\<exists>ks vs. insert_all 4 example_layout (Leaf 0 [0, 0, 0, 0] [0, 0, 0, 0], ?g0) ?kvs
          = Inr (Leaf (4 - 1) ks vs, ?g0)
      \<and> (\<forall>t g'. insert_bpt 4 example_layout (Leaf (4 - 1) ks vs, ?g0) 6 60 = Inr (t, g') \<longrightarrow>
          (\<exists>g1 p1 p2 sks cs lks lvs rks rvs.
              operator_new example_layout ?g0 = Inr (p1, g1)
            \<and> operator_new example_layout g1 = Inr (p2, g')
            \<and> t = Internal 1 sks cs
            \<and> take 2 cs = [Leaf (4 div 2) lks lvs, Leaf (4 - 4 div 2) rks rvs]
            \<and> node_count t = 3))"
    using th by (elim exE conjE, intro exI conjI) assumption+
  then obtain ks vs where
    a: "insert_all 4 example_layout (Leaf 0 [0, 0, 0, 0] [0, 0, 0, 0], ?g0) ?kvs
          = Inr (Leaf (4 - 1) ks vs, ?g0)"
    and b: "\<forall>t g'. insert_bpt 4 example_layout (Leaf (4 - 1) ks vs, ?g0) 6 60 = Inr (t, g') \<longrightarrow>
          (\<exists>g1 p1 p2 sks cs lks lvs rks rvs.
              operator_new example_layout ?g0 = Inr (p1, g1)
            \<and> operator_new example_layout g1 = Inr (p2, g')
            \<and> t = Internal 1 sks cs
            \<and> take 2 cs = [Leaf (4 div 2) lks lvs, Leaf (4 - 4 div 2) rks rvs]
            \<and> node_count t = 3)"
    by blast
  from a fill have ks: "ks = [5, 10, 20, 0]" "vs = [50, 100, 200, 0]" by simp_all
  from b [unfolded ks] ins have "node_count (Internal 1 [10, 0, 0, 0]
                [Leaf 2 [5, 6, 10, 20] [50, 60, 100, 200],
                 Leaf 2 [10, 20, 0, 0] [100, 200, 0, 0], Dangling, Dangling, Dangling]
                :: (int, int) Node) = 3"
    by auto
  with new fill ins hyp show ?thesis by simp
qed

section \<open>Inserting a key that is already there\<close>

text \<open>
  The loop of \<^verbatim>\<open>insert_recursive\<close> stops at the first key that is not less than the new key,
  so the key before the stop is less than it: the test \<^verbatim>\<open>keys[i - 1] == key\<close> for an
  existing key never succeeds (\<open>overwrite_test_fails\<close>), and a key that is already in the
  tree is stored a second time.  \<^verbatim>\<open>findLinear\<close> and \<^verbatim>\<open>remove_recursive\<close> advance with
  \<^verbatim>\<open>key >= keys[i]\<close>, \<^verbatim>\<open>insert_recursive\<close> with \<^verbatim>\<open>key > keys[i]\<close>.

  C1 at a failing input, with \<open>M = 4\<close>: after the inserts of 10, 20, 5, 6 the key 10 is the
  separator in the root.  \<^verbatim>\<open>insert(10, 101)\<close> descends to the left of the separator and
  stores (10, 101) in the left leaf; the three lookups descend to the right of it and
  return the old value 100.
\<close>

theorem insert_of_separator_key_not_found:
  "build 4 example_layout example_arena
       [(10, 100), (20, 200), (5, 50), (6, 60), (10, 101)]
     = Inr (Internal 1 [10, 0, 0, 0]
              [Leaf 3 [5, 6, 10, 20] [50, 60, 101, 200],
               Leaf 2 [10, 20, 0, 0] [100, 200, 0, 0], Dangling, Dangling, Dangling],
            Some \<lparr>memory = 0, offset = 192, capacity = 4096\<rparr>)
   \<and> findLinear (Internal 1 [10, 0, 0, 0]
              [Leaf 3 [5, 6, 10, 20] [50, 60, 101, 200],
               Leaf 2 [10, 20, 0, 0] [100, 200, 0, 0], Dangling, Dangling, Dangling]) (10 :: int)
       = Inr (Some (100 :: int))
   \<and> findBinary (Internal 1 [10, 0, 0, 0]
              [Leaf 3 [5, 6, 10, 20] [50, 60, 101, 200],
               Leaf 2 [10, 20, 0, 0] [100, 200, 0, 0], Dangling, Dangling, Dangling]) (10 :: int)
       = Inr (Some (100 :: int))
   \<and> findSIMD (\<lambda>j. 0) (Internal 1 [10, 0, 0, 0]
              [Leaf 3 [5, 6, 10, 20] [50, 60, 101, 200],
               Leaf 2 [10, 20, 0, 0] [100, 200, 0, 0], Dangling, Dangling, Dangling]) 10
       = Inr (Some (100 :: int))"
  by code_simp

text \<open>
  C2 at a failing input, with \<open>M = 4\<close>: after \<^verbatim>\<open>insert(5, 50); insert(5, 51)\<close> two leaf slots
  carry the key 5.
\<close>

theorem insert_twice_two_slots:
  "build 4 example_layout example_arena [(5, 50), (5, 51)]
     = Inr (Leaf 2 [5, 5, 0, 0] [51, 50, 0, 0],
            Some \<lparr>memory = 0, offset = 64, capacity = 4096\<rparr>)
   \<and> entries (Leaf 2 [5, 5, 0, 0] [51, 50, 0, 0] :: (int, int) Node) = [(5, 51), (5, 50)]
   \<and> length (filter (\<lambda>kv. fst kv = 5) (entries (Leaf 2 [5, 5, 0, 0] [51, 50, 0, 0] :: (int, int) Node))) = 2"
  by code_simp

text \<open>
  C4 at a failing input, with \<open>M = 4\<close>: after \<^verbatim>\<open>insert(7, 70); insert(7, 71)\<close> the keys of the
  root leaf are 7, 7, which is not strictly ascending.
\<close>

theorem insert_twice_not_ascending:
  "build 4 example_layout example_arena [(7, 70), (7, 71)]
     = Inr (Leaf 2 [7, 7, 0, 0] [71, 70, 0, 0],
            Some \<lparr>memory = 0, offset = 64, capacity = 4096\<rparr>)
   \<and> \<not> ordered (Leaf 2 [7, 7, 0, 0] [71, 70, 0, 0] :: (int, int) Node)"
  by code_simp

section \<open>Lookup equivalence\<close>

text \<open>
  C3: on every valid tree of the program the three lookups return the same (found, value)
  result.  A tree of the program is what the constructor and a sequence of \<^verbatim>\<open>insert\<close> and
  \<^verbatim>\<open>remove\<close> calls leave, for a fan-out \<open>3 \<le> M < 65536\<close> (the specification asks for
  \<open>M \<ge> 4\<close>, and \<^verbatim>\<open>num_keys\<close> is a \<^verbatim>\<open>uint16_t\<close>); it is valid when it has the ordering,
  separator and balance invariants.  On such a tree \<^verbatim>\<open>findLinear\<close> returns, and \<^verbatim>\<open>findBinary\<close>
  and \<^verbatim>\<open>findSIMD\<close> return what \<^verbatim>\<open>findLinear\<close> returns: for keys of any ordered type, where
  \<^verbatim>\<open>findSIMD\<close> is the overload that calls \<^verbatim>\<open>findBinary\<close>, and for \<^verbatim>\<open>int\<close> keys, where it is the
  eight-lane scan, whatever the lanes loaded from beyond the key array hold (\<open>past\<close>).
  When no key of an internal node is greater than the searched key, \<^verbatim>\<open>findBinary\<close> reads
  \<^verbatim>\<open>keys[num_keys - 1]\<close> after its loop; every internal node of a tree of the program has
  a separator (\<open>run_inv\<close>).
\<close>

theorem lookups_agree:
  fixes t :: "('k::linorder, 'v) Node" and s :: "(int, 'w) Node"
  assumes "3 \<le> M" and "M < 65536"
    and "run M L g calls = Inr (t, g')" and "valid_tree t"
    and "3 \<le> N" and "N < 65536"
    and "run N K a calls' = Inr (s, a')" and "valid_tree s"
  shows "(\<exists>r. findLinear t key = Inr r)
       \<and> findBinary t key = findLinear t key
       \<and> findSIMD_other t key = findBinary t key
       \<and> findBinary s k = findLinear s k
       \<and> findSIMD past s k = findBinary s k"
proof -
  note t = valid_tree_parts [OF assms(4)] and s = valid_tree_parts [OF assms(8)]
  from run_inv [OF assms(1,2,3)] have tp: "separators_present t" by simp
  from run_inv [OF assms(5,6,7)] have sp: "separators_present s" by simp
  from findLinear_reached [OF t(1), of key] have "\<exists>r. findLinear t key = Inr r" by blast
  moreover have "findBinary t key = findLinear t key"
    by (rule findBinary_findLinear [OF t tp])
  moreover have bs: "findBinary s k = findLinear s k"
    by (rule findBinary_findLinear [OF s sp])
  moreover have "findSIMD past s k = findLinear s k"
    by (rule findSIMD_findLinear [OF s(1)])
  ultimately show ?thesis by (simp add: findSIMD_other_def)
qed

theorem lookups_agree_witness:
  "(3 :: nat) \<le> 4 \<and> (4 :: nat) < 65536
   \<and> run 4 example_layout example_arena
         [Insert 10 100, Insert 20 200, Insert 5 50, Insert 6 60, Insert 7 70, Remove 6]
       = Inr (Internal 1 [10, 0, 0, 0]
                [Leaf 2 [5, 7, 7, 20] [50, 70, 70, 200],
                 Leaf 2 [10, 20, 0, 0] [100, 200, 0, 0], Dangling, Dangling, Dangling],
              Some \<lparr>memory = 0, offset = 192, capacity = 4096\<rparr>)
   \<and> valid_tree (Internal 1 [10, 0, 0, 0]
       [Leaf 2 [5, 7, 7, 20] [50, 70, 70, 200],
        Leaf 2 [10, 20, 0, 0] [100, 200, 0, 0], Dangling, Dangling, Dangling] :: (int, int) Node)
   \<and> findLinear (Internal 1 [10, 0, 0, 0]
       [Leaf 2 [5, 7, 7, 20] [50, 70, 70, 200],
        Leaf 2 [10, 20, 0, 0] [100, 200, 0, 0], Dangling, Dangling, Dangling]) (7 :: int)
       = Inr (Some (70 :: int))
   \<and> findBinary (Internal 1 [10, 0, 0, 0]
       [Leaf 2 [5, 7, 7, 20] [50, 70, 70, 200],
        Leaf 2 [10, 20, 0, 0] [100, 200, 0, 0], Dangling, Dangling, Dangling]) (7 :: int)
       = Inr (Some (70 :: int))
   \<and> findSIMD_other (Internal 1 [10, 0, 0, 0]
       [Leaf 2 [5, 7, 7, 20] [50, 70, 70, 200],
        Leaf 2 [10, 20, 0, 0] [100, 200, 0, 0], Dangling, Dangling, Dangling]) (7 :: int)
       = Inr (Some (70 :: int))
   \<and> findSIMD (\<lambda>j. 7) (Internal 1 [10, 0, 0, 0]
       [Leaf 2 [5, 7, 7, 20] [50, 70, 70, 200],
        Leaf 2 [10, 20, 0, 0] [100, 200, 0, 0], Dangling, Dangling, Dangling]) 7
       = Inr (Some (70 :: int))"
proof -
  let ?t = "Internal 1 [10, 0, 0, 0]
       [Leaf 2 [5, 7, 7, 20] [50, 70, 70, 200],
        Leaf 2 [10, 20, 0, 0] [100, 200, 0, 0], Dangling, Dangling, Dangling] :: (int, int) Node"
  have m: "(3 :: nat) \<le> 4" "(4 :: nat) < 65536" by simp_all
  have r: "run 4 example_layout example_arena
         [Insert 10 100, Insert 20 200, Insert 5 50, Insert 6 60, Insert 7 70, Remove 6]
       = Inr (?t, Some \<lparr>memory = 0, offset = 192, capacity = 4096\<rparr>)"
    by code_simp
  have v: "valid_tree ?t" by code_simp
  have l: "findLinear ?t 7 = Inr (Some 70)" by code_simp
  from lookups_agree [OF m r v m r v, of 7 7 "\<lambda>j. 7"] m r v l show ?thesis by simp
qed

section \<open>The tail lanes of the SIMD leaf scan\<close>

text \<open>
  C7: the SIMD leaf scan reports no hit at an index \<open>\<ge> num_keys\<close>.  Its result does not
  depend on what the slots from \<open>num_keys\<close> on and the lanes beyond the array hold; an index
  it reports is below \<open>num_keys\<close> and carries the key; and on a valid tree with \<^verbatim>\<open>int\<close> keys,
  when \<^verbatim>\<open>findSIMD\<close> returns true with a value, the key occurs in \<open>keys[0..num_keys)\<close> of the
  leaf reached by the descent, and the value is the one stored at that index.
\<close>

theorem simd_no_false_hit:
  fixes t :: "(int, 'v) Node"
  assumes "valid_tree t"
  shows "(\<forall>n ks ks' past'. n \<le> length ks \<and> n \<le> length ks' \<and> take n ks = take n ks' \<longrightarrow>
            simd_leaf past n ks key 0 = simd_leaf past' n ks' key 0)
       \<and> (\<forall>n ks i. n \<le> length ks \<and> simd_leaf past n ks key 0 = Some i \<longrightarrow>
            i < n \<and> ks ! i = key)
       \<and> (\<forall>v. findSIMD past t key = Inr (Some v) \<longrightarrow>
            (\<exists>n ks vs i. reached_leaf t key = Some (Leaf n ks vs)
               \<and> i < n \<and> ks ! i = key \<and> vs ! i = v))"
proof (intro conjI allI impI)
  fix n ks ks' past'
  assume a: "n \<le> length ks \<and> n \<le> length (ks' :: int list) \<and> take n ks = take n ks'"
  then have same: "ks ! l = ks' ! l" if "l < n" for l
    using that by (metis nth_take)
  have "linear_leaf n ks key 0 = linear_leaf n ks' key 0"
  proof (rule linear_leaf_unique)
    show "\<forall>j. linear_leaf n ks' key 0 = Some j \<longrightarrow>
        j < n \<and> ks ! j = key \<and> (\<forall>l<j. ks ! l \<noteq> key)"
    proof (intro allI impI)
      fix j assume "linear_leaf n ks' key 0 = Some j"
      from linear_leaf_Some [OF this]
      have j: "j < n" "ks' ! j = key" "\<forall>l. l < j \<longrightarrow> ks' ! l \<noteq> key" by simp_all
      then show "j < n \<and> ks ! j = key \<and> (\<forall>l<j. ks ! l \<noteq> key)"
        using same by simp
    qed
    show "linear_leaf n ks' key 0 = None \<longrightarrow> (\<forall>l<n. ks ! l \<noteq> key)"
    proof (intro allI impI)
      fix l assume "linear_leaf n ks' key 0 = None" "l < n"
      from linear_leaf_None [OF this(1) _ this(2)] same [OF this(2)]
      show "ks ! l \<noteq> key" by simp
    qed
  qed
  then show "simd_leaf past n ks key 0 = simd_leaf past' n ks' key 0"
    using a by (simp add: simd_leaf_linear_leaf)
next
  fix n ks i
  assume a: "n \<le> length ks \<and> simd_leaf past n ks key 0 = Some i"
  then have n: "n \<le> length ks" and s: "simd_leaf past n ks key 0 = Some i" by simp_all
  have "linear_leaf n ks key 0 = Some i"
    using simd_leaf_linear_leaf [OF n, of past key] s by simp
  from linear_leaf_Some [OF this] show "i < n" and "ks ! i = key" by simp_all
next
  fix v assume hit: "findSIMD past t key = Inr (Some v)"
  have wf: "well_formed t" by (rule valid_tree_parts(1) [OF assms])
  from findLinear_reached [OF wf, of key] obtain n ks vs where
    r: "reached_leaf t key = Some (Leaf n ks vs)"
    and f: "findLinear t key = Inr (map_option (\<lambda>i. vs ! i) (linear_leaf n ks key 0))"
    by blast
  from hit have "findLinear t key = Inr (Some v)" by (simp add: findSIMD_findLinear [OF wf])
  with f have "map_option (\<lambda>i. vs ! i) (linear_leaf n ks key 0) = Some v" by simp
  then obtain i where i: "linear_leaf n ks key 0 = Some i" "vs ! i = v"
    by (cases "linear_leaf n ks key 0") auto
  from linear_leaf_Some [OF i(1)] have "i < n" "ks ! i = key" by simp_all
  with r i(2) show "\<exists>n ks vs i. reached_leaf t key = Some (Leaf n ks vs)
               \<and> i < n \<and> ks ! i = key \<and> vs ! i = v"
    by blast
qed

theorem simd_no_false_hit_witness:
  "valid_tree (Internal 1 [10, 0, 0, 0]
       [Leaf 2 [5, 6, 10, 20] [50, 60, 100, 200],
        Leaf 2 [10, 20, 0, 0] [100, 200, 0, 0], Dangling, Dangling, Dangling] :: (int, int) Node)
   \<and> findSIMD (\<lambda>j. 10) (Internal 1 [10, 0, 0, 0]
       [Leaf 2 [5, 6, 10, 20] [50, 60, 100, 200],
        Leaf 2 [10, 20, 0, 0] [100, 200, 0, 0], Dangling, Dangling, Dangling] :: (int, int) Node) 7
       = Inr None
   \<and> simd_leaf (\<lambda>j. 10) 2 [5, 6, 10, 20] 10 0 = None
   \<and> simd_leaf (\<lambda>j. 10) 2 [5, 6, 10, 20] 10 0 = simd_leaf (\<lambda>j. 0) 2 [5, 6, 0, 0] 10 0"
proof -
  let ?t = "Internal 1 [10, 0, 0, 0]
       [Leaf 2 [5, 6, 10, 20] [50, 60, 100, 200],
        Leaf 2 [10, 20, 0, 0] [100, 200, 0, 0], Dangling, Dangling, Dangling] :: (int, int) Node"
  have v: "valid_tree ?t" by code_simp
  have f: "findSIMD (\<lambda>j. 10) ?t 7 = Inr None" by code_simp
  have l: "simd_leaf (\<lambda>j. 10) 2 [5, 6, 10, 20] 10 0 = None" by code_simp
  have "\<forall>n ks ks' past'. n \<le> length ks \<and> n \<le> length ks' \<and> take n ks = take n ks' \<longrightarrow>
            simd_leaf (\<lambda>j. 10) n ks 10 0 = simd_leaf past' n ks' 10 0"
    using simd_no_false_hit [OF v, of "\<lambda>j. 10" 10] by (rule conjunct1)
  then have "(2::nat) \<le> length [5, 6, 10, 20 :: int] \<and> 2 \<le> length [5, 6, 0, 0 :: int]
      \<and> take 2 [5, 6, 10, 20 :: int] = take 2 [5, 6, 0, 0] \<longrightarrow>
      simd_leaf (\<lambda>j. 10) 2 [5, 6, 10, 20] 10 0 = simd_leaf (\<lambda>j. 0) 2 [5, 6, 0, 0] 10 0"
    by blast
  then have "simd_leaf (\<lambda>j. 10) 2 [5, 6, 10, 20] 10 0 = simd_leaf (\<lambda>j. 0) 2 [5, 6, 0, 0] 10 0"
    by simp
  with v f l show ?thesis by simp
qed
section \<open>Removal from the reached leaf\<close>

text \<open>
  C9: on a valid tree, \<^verbatim>\<open>remove(key)\<close> returns, and it acts on the leaf reached by the
  standard descent (into the child after the last separator \<open>\<le> key\<close>) only.  If the key
  is not among the live keys of that leaf, the tree is unchanged.  If it is, with \<open>j\<close> its
  first index, the tree is the old one with that leaf replaced: \<open>num_keys\<close> is one less,
  the slots before \<open>j\<close> are unchanged and the slots from \<open>j\<close> on hold the pairs that
  followed them, so the live pairs are the old ones without the pair at \<open>j\<close>.  Every
  other node is the same.
\<close>

theorem remove_erases_in_reached_leaf:
  fixes t :: "('k::linorder, 'v) Node"
  assumes "valid_tree t"
  shows "\<exists>n ks vs. reached_leaf t key = Some (Leaf n ks vs)
     \<and> (key \<notin> set (take n ks) \<longrightarrow> remove_bpt t key = Inr t)
     \<and> (key \<in> set (take n ks) \<longrightarrow>
          (\<exists>j ks' vs'. j < n \<and> ks ! j = key
             \<and> remove_bpt t key = Inr (replace_reached t key (Leaf (n - 1) ks' vs'))
             \<and> length ks' = length ks \<and> length vs' = length vs
             \<and> (\<forall>l<j. ks' ! l = ks ! l \<and> vs' ! l = vs ! l)
             \<and> (\<forall>l. j \<le> l \<and> l < n - 1 \<longrightarrow> ks' ! l = ks ! (l + 1) \<and> vs' ! l = vs ! (l + 1))
             \<and> entries (Leaf (n - 1) ks' vs') = erase_first key (entries (Leaf n ks vs))))"
proof -
  have wf: "well_formed t" by (rule valid_tree_parts(1) [OF assms])
  from remove_recursive_reached [OF wf, of key] obtain n ks vs where
    r: "reached_leaf t key = Some (Leaf n ks vs)"
    and leaf: "well_formed (Leaf n ks vs)"
    and rm: "remove_recursive t key = Inr (replace_reached t key (remove_leaf n ks vs key 0))"
    by blast
  from leaf have n: "n < 65536" "n \<le> length ks" "n \<le> length vs"
    by (simp_all add: u16_fits)
  have mem: "key \<in> set (take n ks) \<longleftrightarrow> (\<exists>l<n. ks ! l = key)"
    using n(2) by (auto simp: in_set_conv_nth)
  have absent: "remove_bpt t key = Inr t" if "key \<notin> set (take n ks)"
  proof -
    have "linear_leaf n ks key 0 = None"
      by (rule linear_leaf_unique) (use that mem in auto)
    then have "remove_leaf n ks vs key 0 = Leaf n ks vs"
      by (simp add: remove_leaf_linear_leaf)
    then show ?thesis
      using rm replace_reached_same [OF r] by (simp add: remove_bpt_def)
  qed
  have present: "\<exists>j ks' vs'. j < n \<and> ks ! j = key
             \<and> remove_bpt t key = Inr (replace_reached t key (Leaf (n - 1) ks' vs'))
             \<and> length ks' = length ks \<and> length vs' = length vs
             \<and> (\<forall>l<j. ks' ! l = ks ! l \<and> vs' ! l = vs ! l)
             \<and> (\<forall>l. j \<le> l \<and> l < n - 1 \<longrightarrow> ks' ! l = ks ! (l + 1) \<and> vs' ! l = vs ! (l + 1))
             \<and> entries (Leaf (n - 1) ks' vs') = erase_first key (entries (Leaf n ks vs))"
    if "key \<in> set (take n ks)"
  proof -
    from that mem obtain l where l: "l < n" "ks ! l = key" by blast
    obtain j where lin: "linear_leaf n ks key 0 = Some j"
    proof (cases "linear_leaf n ks key 0")
      case None
      from linear_leaf_None [OF None _ l(1)] l(2) show ?thesis by simp
    next
      case (Some j)
      then show ?thesis by (rule that)
    qed
    from linear_leaf_Some [OF lin]
    have j: "j < n" "ks ! j = key" "\<forall>l<j. ks ! l \<noteq> key" by simp_all
    let ?ks = "shift_left ks j n" and ?vs = "shift_left vs j n"
    have "1 \<le> n" using j(1) by simp
    from u16_int_diff [OF this n(1)] have "u16 (int n - 1) = n - 1" by simp
    then have "remove_leaf n ks vs key 0 = Leaf (n - 1) ?ks ?vs"
      by (simp add: remove_leaf_linear_leaf lin)
    then have rem: "remove_bpt t key = Inr (replace_reached t key (Leaf (n - 1) ?ks ?vs))"
      using rm by (simp add: remove_bpt_def)
    have before: "?ks ! l = ks ! l \<and> ?vs ! l = vs ! l" if "l < j" for l
    proof -
      have "l < length ks" "l < length vs"
        using that j(1) n(2,3) by simp_all
      then show ?thesis
        using that nth_shift_left [OF n(2), of l j] nth_shift_left [OF n(3), of l j] by simp
    qed
    have after: "?ks ! l = ks ! (l + 1) \<and> ?vs ! l = vs ! (l + 1)" if "j \<le> l \<and> l < n - 1" for l
    proof -
      have "l < length ks" "l < length vs" "j \<le> l" "Suc l < n"
        using that j(1) n(2,3) by auto
      then show ?thesis
        using nth_shift_left [OF n(2), of l j] nth_shift_left [OF n(3), of l j] by simp
    qed
    have ent: "entries (Leaf (n - 1) ?ks ?vs) = erase_first key (entries (Leaf n ks vs))"
      by (rule removed_leaf_entries [OF n(2,3) j])
    show ?thesis
    proof (intro exI conjI)
      show "j < n" by (rule j(1))
      show "ks ! j = key" by (rule j(2))
      show "remove_bpt t key = Inr (replace_reached t key (Leaf (n - 1) ?ks ?vs))" by (rule rem)
      show "length ?ks = length ks" by simp
      show "length ?vs = length vs" by simp
      show "\<forall>l<j. ?ks ! l = ks ! l \<and> ?vs ! l = vs ! l" using before by blast
      show "\<forall>l. j \<le> l \<and> l < n - 1 \<longrightarrow> ?ks ! l = ks ! (l + 1) \<and> ?vs ! l = vs ! (l + 1)"
        using after by blast
      show "entries (Leaf (n - 1) ?ks ?vs) = erase_first key (entries (Leaf n ks vs))"
        by (rule ent)
    qed
  qed
  show ?thesis
  proof (rule exI [of _ n], rule exI [of _ ks], rule exI [of _ vs], intro conjI)
    show "reached_leaf t key = Some (Leaf n ks vs)" by (rule r)
    show "key \<notin> set (take n ks) \<longrightarrow> remove_bpt t key = Inr t"
      using absent by blast
    show "key \<in> set (take n ks) \<longrightarrow>
          (\<exists>j ks' vs'. j < n \<and> ks ! j = key
             \<and> remove_bpt t key = Inr (replace_reached t key (Leaf (n - 1) ks' vs'))
             \<and> length ks' = length ks \<and> length vs' = length vs
             \<and> (\<forall>l<j. ks' ! l = ks ! l \<and> vs' ! l = vs ! l)
             \<and> (\<forall>l. j \<le> l \<and> l < n - 1 \<longrightarrow> ks' ! l = ks ! (l + 1) \<and> vs' ! l = vs ! (l + 1))
             \<and> entries (Leaf (n - 1) ks' vs') = erase_first key (entries (Leaf n ks vs)))"
      using present by (rule impI)
  qed
qed

theorem remove_erases_in_reached_leaf_witness:
  "valid_tree (Internal 1 [10, 0, 0, 0]
       [Leaf 2 [5, 6, 10, 20] [50, 60, 100, 200],
        Leaf 2 [10, 20, 0, 0] [100, 200, 0, 0], Dangling, Dangling, Dangling] :: (int, int) Node)
   \<and> reached_leaf (Internal 1 [10, 0, 0, 0]
       [Leaf 2 [5, 6, 10, 20] [50, 60, 100, 200],
        Leaf 2 [10, 20, 0, 0] [100, 200, 0, 0], Dangling, Dangling, Dangling] :: (int, int) Node) 5
       = Some (Leaf 2 [5, 6, 10, 20] [50, 60, 100, 200])
   \<and> remove_bpt (Internal 1 [10, 0, 0, 0]
       [Leaf 2 [5, 6, 10, 20] [50, 60, 100, 200],
        Leaf 2 [10, 20, 0, 0] [100, 200, 0, 0], Dangling, Dangling, Dangling] :: (int, int) Node) 5
       = Inr (Internal 1 [10, 0, 0, 0]
          [Leaf 1 [6, 6, 10, 20] [60, 60, 100, 200],
           Leaf 2 [10, 20, 0, 0] [100, 200, 0, 0], Dangling, Dangling, Dangling])
   \<and> remove_bpt (Internal 1 [10, 0, 0, 0]
       [Leaf 2 [5, 6, 10, 20] [50, 60, 100, 200],
        Leaf 2 [10, 20, 0, 0] [100, 200, 0, 0], Dangling, Dangling, Dangling] :: (int, int) Node) 7
       = Inr (Internal 1 [10, 0, 0, 0]
          [Leaf 2 [5, 6, 10, 20] [50, 60, 100, 200],
           Leaf 2 [10, 20, 0, 0] [100, 200, 0, 0], Dangling, Dangling, Dangling])"
proof -
  let ?t = "Internal 1 [10, 0, 0, 0]
       [Leaf 2 [5, 6, 10, 20] [50, 60, 100, 200],
        Leaf 2 [10, 20, 0, 0] [100, 200, 0, 0], Dangling, Dangling, Dangling] :: (int, int) Node"
  have v: "valid_tree ?t" by code_simp
  have r: "reached_leaf ?t 5 = Some (Leaf 2 [5, 6, 10, 20] [50, 60, 100, 200])" by code_simp
  have rm: "remove_bpt ?t 5 = Inr (Internal 1 [10, 0, 0, 0]
          [Leaf 1 [6, 6, 10, 20] [60, 60, 100, 200],
           Leaf 2 [10, 20, 0, 0] [100, 200, 0, 0], Dangling, Dangling, Dangling])"
    by code_simp
  from remove_erases_in_reached_leaf [OF v, of 7] obtain n ks vs where
    r7: "reached_leaf ?t 7 = Some (Leaf n ks vs)"
    and absent: "7 \<notin> set (take n ks) \<longrightarrow> remove_bpt ?t 7 = Inr ?t"
    by (elim exE conjE) (rule that)
  have "reached_leaf ?t 7 = Some (Leaf 2 [5, 6, 10, 20] [50, 60, 100, 200])" by code_simp
  with r7 have "n = 2" "ks = [5, 6, 10, 20]" by simp_all
  with absent have "remove_bpt ?t 7 = Inr ?t" by simp
  with v r rm show ?thesis by simp
qed

end
